theory Spec2Isabelle
  imports Complex_Main "HOL-Library.AList" "HOL-Library.Sublist"
begin

section \<open>Values and dictionaries\<close>

text \<open>
  The orchestrator stores values of Python's type \<open>Any\<close> in its dictionaries. The
  values the core itself creates or inspects are \<open>None\<close>, booleans, integers, floats
  (durations), strings, lists (the attempts log) and dictionaries (one log entry).
  A Python float is modelled by a real number.

  A Python \<open>dict\<close> is an association list with distinct keys in insertion order:
  \<open>d[k] = v\<close> is \<open>AList.update k v d\<close> (an existing key keeps its position, a new key
  is appended), \<open>d.get(k)\<close> is \<open>map_of d k\<close>.
\<close>

datatype pyval = VNone | VBool bool | VInt int | VFloat real | VStr string
  | VList "pyval list" | VDict "(string \<times> pyval) list"

definition is_dict :: "('k \<times> 'v) list \<Rightarrow> bool" where
  "is_dict kvs = distinct (map fst kvs)"

section \<open>Context (core/context.py)\<close>

type_synonym Context = "(string \<times> pyval) list"

text \<open>\<open>Context.get(key, default)\<close>: \<open>self._data.get(key, default)\<close>.\<close>

definition get :: "Context \<Rightarrow> string \<Rightarrow> pyval \<Rightarrow> pyval" where
  "get d key dflt = (case map_of d key of None \<Rightarrow> dflt | Some v \<Rightarrow> v)"

text \<open>\<open>Context.set(key, value)\<close>: \<open>self._data[key] = value\<close>.\<close>

definition set_key :: "Context \<Rightarrow> string \<Rightarrow> pyval \<Rightarrow> Context" where
  "set_key d key v = AList.update key v d"

text \<open>
  \<open>Context.merge(namespace, outputs)\<close>: for every item \<open>(k, v)\<close> of \<open>outputs\<close>, in
  order, \<open>self._data[f"{namespace}.{k}"] = v\<close>.
\<close>

fun merge :: "string \<Rightarrow> (string \<times> pyval) list \<Rightarrow> Context \<Rightarrow> Context" where
  "merge ns [] d = d"
| "merge ns ((k, v) # kvs) d = merge ns kvs (AList.update (ns @ ''.'' @ k) v d)"

text \<open>\<open>Context.__contains__\<close> and \<open>Context.snapshot\<close> (a copy of the dictionary).\<close>

definition contains :: "Context \<Rightarrow> string \<Rightarrow> bool" where
  "contains d key = (map_of d key \<noteq> None)"

definition snapshot :: "Context \<Rightarrow> (string \<times> pyval) list" where
  "snapshot d = d"

subsection \<open>Template substitution\<close>






section \<open>Nodes and results (core/node.py)\<close>

datatype NodeStatus = SUCCESS | FAILURE | SKIPPED

record NodeResult =
  status :: NodeStatus
  outputs :: "(string \<times> pyval) list"
  error :: "string option"
  metadata :: "(string \<times> pyval) list"

text \<open>\<open>dict.setdefault(k, v)\<close>: the entry is added only when the key is absent.\<close>

definition setdefault :: "'k \<Rightarrow> 'v \<Rightarrow> ('k \<times> 'v) list \<Rightarrow> ('k \<times> 'v) list" where
  "setdefault k v d = (case map_of d k of None \<Rightarrow> d @ [(k, v)] | Some _ \<Rightarrow> d)"

lemma map_of_setdefault:
  "map_of (setdefault k v d) k' = (if k' = k \<and> map_of d k = None then Some v else map_of d k')"
  by (auto simp: setdefault_def map_add_def split: option.splits)

lemma setdefault_idem: "setdefault k v (setdefault k v d) = setdefault k v d"
  by (auto simp: setdefault_def map_add_def split: option.splits)

text \<open>
  What \<open>run\<close> raises. \<open>Node.execute\<close> catches with \<open>except Exception as e\<close>: an
  exception whose class derives from \<open>Exception\<close> is caught, one that derives from
  \<open>BaseException\<close> only (\<open>KeyboardInterrupt\<close>, \<open>SystemExit\<close>, \<open>GeneratorExit\<close>,
  \<open>asyncio.CancelledError\<close>) is not. The argument is \<open>str(e)\<close>.
\<close>

datatype raised = Exception string | BaseException string

text \<open>
  A node's \<open>run(ctx)\<close> reads and writes the shared context and whatever else it can reach
  (its own fields, files, the clock): the type \<open>'w\<close> is that rest of the world. It returns
  a result or raises.
\<close>

type_synonym 'w run_fn = "Context \<Rightarrow> 'w \<Rightarrow> (raised + NodeResult) \<times> Context \<times> 'w"

text \<open>
  Python's \<open>round(x, 1)\<close> on a float: to the nearest multiple of one tenth, a tie to the
  even one.
\<close>

definition round_half_even :: "real \<Rightarrow> int" where
  "round_half_even x =
     (let f = \<lfloor>x\<rfloor>; r = x - of_int f
      in if r < 1 / 2 then f else if 1 / 2 < r then f + 1 else if even f then f else f + 1)"

definition py_round1 :: "real \<Rightarrow> real" where
  "py_round1 x = of_int (round_half_even (x * 10)) / 10"

text \<open>
  \<open>Node.execute(ctx)\<close>. \<open>clock\<close> is \<open>time.monotonic()\<close>, read from the world before and
  after \<open>run\<close>.
\<close>

definition Node_execute :: "('w \<Rightarrow> real) \<Rightarrow> 'w run_fn \<Rightarrow> 'w run_fn" where
  "Node_execute clock run ctx w =
     (let start = clock w in
      case run ctx w of
        (r, ctx', w') \<Rightarrow>
          (let stamp = (\<lambda>result. result\<lparr>metadata :=
                 setdefault ''duration_ms'' (VFloat (py_round1 ((clock w' - start) * 1000)))
                   (metadata result)\<rparr>)
           in case r of
                Inr res \<Rightarrow> (Inr (stamp res), ctx', w')
              | Inl (Exception m) \<Rightarrow>
                  (Inr (stamp \<lparr>status = FAILURE, outputs = [], error = Some m, metadata = []\<rparr>),
                   ctx', w')
              | Inl (BaseException m) \<Rightarrow> (Inl (BaseException m), ctx', w')))"

text \<open>
  The Runner and the control nodes call a node through \<open>execute\<close> only, declared
  \<open>execute(ctx) -> NodeResult\<close>. In their models a node is its identifier and the
  behaviour of its \<open>execute\<close> as a call that returns a result.
\<close>

type_synonym 'w exec = "Context \<Rightarrow> 'w \<Rightarrow> NodeResult \<times> Context \<times> 'w"

record 'w Node =
  node_id :: string
  execute :: "'w exec"

text \<open>
  \<open>execute\<close> for a node whose \<open>run\<close> returns: the result of \<open>run\<close> with the duration
  added to its metadata.
\<close>

definition execute_of :: "('w \<Rightarrow> real) \<Rightarrow> 'w exec \<Rightarrow> 'w exec" where
  "execute_of clock body ctx w =
     (case body ctx w of
        (res, ctx', w') \<Rightarrow>
          (res\<lparr>metadata :=
                 setdefault ''duration_ms'' (VFloat (py_round1 ((clock w' - clock w) * 1000)))
                   (metadata res)\<rparr>, ctx', w'))"

lemma Node_execute_returning:
  "Node_execute clock (\<lambda>c w. case body c w of (r, c', w') \<Rightarrow> (Inr r, c', w')) ctx w =
     (case execute_of clock body ctx w of (r, c', w') \<Rightarrow> (Inr r, c', w'))"
  by (simp add: Node_execute_def execute_of_def split: prod.splits)

section \<open>Graph (core/graph.py)\<close>

datatype error = ValueError string | KeyError string | IndexError | CycleError int int

text \<open>
  A Python \<open>set\<close> of identifiers is a list without repetition; \<open>s.add(x)\<close> is
  \<open>set_add\<close>. The order in which Python iterates over a set is not specified: the
  theorems below hold for every order of these lists.
\<close>

definition set_add :: "'a \<Rightarrow> 'a list \<Rightarrow> 'a list" where
  "set_add x xs = (if x \<in> set xs then xs else xs @ [x])"

record 'w Graph =
  nodes :: "(string \<times> 'w Node) list"
  edges :: "(string \<times> string list) list"
  reverse :: "(string \<times> string list) list"

definition empty_graph :: "'w Graph" where
  "empty_graph = \<lparr>nodes = [], edges = [], reverse = []\<rparr>"

definition add_node :: "'w Node \<Rightarrow> 'w Graph \<Rightarrow> 'w Graph" where
  "add_node n g =
     g\<lparr>nodes := AList.update (node_id n) n (nodes g),
       edges := setdefault (node_id n) [] (edges g),
       reverse := setdefault (node_id n) [] (reverse g)\<rparr>"

definition add_edge :: "string \<Rightarrow> string \<Rightarrow> 'w Graph \<Rightarrow> error + 'w Graph" where
  "add_edge source target g =
     (if map_of (nodes g) source = None then Inl (ValueError (''Unknown source node: '' @ source))
      else if map_of (nodes g) target = None then Inl (ValueError (''Unknown target node: '' @ target))
      else case map_of (edges g) source of
             None \<Rightarrow> Inl (KeyError source)
           | Some ss \<Rightarrow>
               (case map_of (reverse g) target of
                  None \<Rightarrow> Inl (KeyError target)
                | Some ps \<Rightarrow>
                    Inr (g\<lparr>edges := AList.update source (set_add target ss) (edges g),
                           reverse := AList.update target (set_add source ps) (reverse g)\<rparr>)))"

text \<open>
  Chained calls \<open>g.add_edge(s1, t1).add_edge(s2, t2)\<close>: the first call that raises ends
  the chain.
\<close>

fun add_edges :: "(string \<times> string) list \<Rightarrow> 'w Graph \<Rightarrow> error + 'w Graph" where
  "add_edges [] g = Inr g"
| "add_edges ((s, t) # es) g = (case add_edge s t g of Inl e \<Rightarrow> Inl e | Inr g' \<Rightarrow> add_edges es g')"

definition get_node :: "'w Graph \<Rightarrow> string \<Rightarrow> error + 'w Node" where
  "get_node g nid = (case map_of (nodes g) nid of None \<Rightarrow> Inl (KeyError nid) | Some n \<Rightarrow> Inr n)"

text \<open>\<open>self._reverse.get(nid, set())\<close> and \<open>self._edges.get(nid, set())\<close>.\<close>

definition predecessors :: "'w Graph \<Rightarrow> string \<Rightarrow> string list" where
  "predecessors g nid = (case map_of (reverse g) nid of None \<Rightarrow> [] | Some ps \<Rightarrow> ps)"

definition successors :: "'w Graph \<Rightarrow> string \<Rightarrow> string list" where
  "successors g nid = (case map_of (edges g) nid of None \<Rightarrow> [] | Some ss \<Rightarrow> ss)"

definition node_ids :: "'w Graph \<Rightarrow> string list" where
  "node_ids g = map fst (nodes g)"

subsection \<open>Levels: Kahn's algorithm\<close>

text \<open>
  The innermost loop of \<open>levels\<close>, over the successors of the node just taken from the
  queue: \<open>in_degree[succ] -= 1\<close> (a \<open>KeyError\<close> when \<open>succ\<close> has no in-degree), and
  \<open>queue.append(succ)\<close> when the in-degree has reached zero.
\<close>

fun relax :: "string list \<Rightarrow> (string \<times> int) list \<Rightarrow> string list \<Rightarrow>
    error + ((string \<times> int) list \<times> string list)" where
  "relax [] ind q = Inr (ind, q)"
| "relax (s # ss) ind q =
     (case map_of ind s of
        None \<Rightarrow> Inl (KeyError s)
      | Some d \<Rightarrow> relax ss (AList.update s (d - 1) ind) (if d - 1 = 0 then q @ [s] else q))"

text \<open>
  \<open>for _ in range(len(queue))\<close>: the loop that takes one level from the queue. The
  number of rounds is fixed when the loop starts; \<open>popleft\<close> on an empty deque raises
  \<open>IndexError\<close>.
\<close>

fun drain :: "'w Graph \<Rightarrow> nat \<Rightarrow> (string \<times> int) list \<Rightarrow> string list \<Rightarrow> string list \<Rightarrow> int \<Rightarrow>
    error + ((string \<times> int) list \<times> string list \<times> string list \<times> int)" where
  "drain g 0 ind q lvl visited = Inr (ind, q, lvl, visited)"
| "drain g (Suc n) ind q lvl visited =
     (case q of
        [] \<Rightarrow> Inl IndexError
      | nid # q' \<Rightarrow>
          (case relax (successors g nid) ind q' of
             Inl e \<Rightarrow> Inl e
           | Inr (ind', q'') \<Rightarrow> drain g n ind' q'' (lvl @ [nid]) (visited + 1)))"

text \<open>
  The measure under which \<open>while queue\<close> terminates: the nodes whose in-degree is
  still positive, and the nodes in the queue. \<open>relax\<close> keeps it (a node enters the queue
  exactly when its in-degree falls from one to zero), every \<open>popleft\<close> lowers it.
\<close>

definition pending :: "(string \<times> int) list \<Rightarrow> string list \<Rightarrow> nat" where
  "pending ind q = length (filter (\<lambda>(k, d). 0 < d) ind) + length q"

lemma filter_update_count:
  "map_of ind s = Some d \<Longrightarrow>
   length (filter (\<lambda>(k, d). 0 < d) (AList.update s d' ind)) + (if 0 < d then 1 else 0) =
   length (filter (\<lambda>(k, d). (0::int) < d) ind) + (if 0 < d' then 1 else 0)"
  by (induction ind) (auto split: if_splits)

lemma relax_pending:
  "relax ss ind q = Inr (ind', q') \<Longrightarrow> pending ind' q' = pending ind q"
proof (induction ss ind q rule: relax.induct)
  case (1 ind q)
  then show ?case by simp
next
  case (2 s ss ind q)
  from 2(2) obtain d where d: "map_of ind s = Some d"
    by (auto split: option.splits)
  with 2(2) have "relax ss (AList.update s (d - 1) ind) (if d - 1 = 0 then q @ [s] else q) = Inr (ind', q')"
    by simp
  from 2(1)[OF d this]
  have "pending ind' q' = pending (AList.update s (d - 1) ind) (if d - 1 = 0 then q @ [s] else q)" .
  also have "\<dots> = pending ind q"
  proof (cases "d = 1")
    case True
    with filter_update_count[OF d, of 0] show ?thesis by (simp add: pending_def)
  next
    case False
    with filter_update_count[OF d, of "d - 1"] show ?thesis
      by (auto simp: pending_def split: if_splits)
  qed
  finally show ?case .
qed

lemma drain_pending:
  "drain g n ind q lvl v = Inr (ind', q', lvl', v') \<Longrightarrow> pending ind' q' + n = pending ind q"
proof (induction g n ind q lvl v rule: drain.induct)
  case (1 g ind q lvl visited)
  then show ?case by simp
next
  case (2 g n ind q lvl visited)
  from 2(2) obtain nid qq where q: "q = nid # qq" by (cases q) auto
  with 2(2) obtain ind1 q1 where r: "relax (successors g nid) ind qq = Inr (ind1, q1)"
    by (auto split: sum.splits)
  with 2(2) q have "drain g n ind1 q1 (lvl @ [nid]) (visited + 1) = Inr (ind', q', lvl', v')"
    by simp
  from 2(1)[OF q r refl this] have "pending ind' q' + n = pending ind1 q1" .
  with relax_pending[OF r] q show ?case by (simp add: pending_def)
qed

text \<open>\<open>while queue:\<close> one level per round.\<close>

function levels_loop :: "'w Graph \<Rightarrow> (string \<times> int) list \<Rightarrow> string list \<Rightarrow> string list list \<Rightarrow> int \<Rightarrow>
    error + (string list list \<times> int)" where
  "levels_loop g ind q lvls visited =
     (if q = [] then Inr (lvls, visited)
      else case drain g (length q) ind q [] visited of
             Inl e \<Rightarrow> Inl e
           | Inr (ind', q', lvl, visited') \<Rightarrow> levels_loop g ind' q' (lvls @ [lvl]) visited')"
  by pat_completeness auto
termination
proof (relation "measure (\<lambda>(g, ind, q, lvls, visited). pending ind q)", goal_cases)
  case 1
  then show ?case by simp
next
  case (2 g ind q lvls visited x2 ind' y q' z lvl visited')
  then have "pending ind' q' + length q = pending ind q"
    using drain_pending by blast
  with 2(1) show ?case by (cases q) auto
qed

text \<open>
  The property \<open>Graph.levels\<close>. The in-degrees are a dictionary over \<open>self._nodes\<close>, in
  its order; the first queue holds the nodes of in-degree zero, in that order.
\<close>

definition levels :: "'w Graph \<Rightarrow> error + string list list" where
  "levels g =
     (let in_degree = map (\<lambda>nid. (nid, int (length (predecessors g nid)))) (node_ids g);
          queue = map fst (filter (\<lambda>(nid, deg). deg = 0) in_degree)
      in case levels_loop g in_degree queue [] 0 of
           Inl e \<Rightarrow> Inl e
         | Inr (lvls, visited) \<Rightarrow>
             if visited \<noteq> int (length (nodes g))
             then Inl (CycleError visited (int (length (nodes g))))
             else Inr lvls)"

section \<open>Control nodes (nodes/control.py)\<close>










section \<open>Runner (core/runner.py)\<close>

record RunReport =
  results :: "(string \<times> NodeResult) list"
  duration_ms :: real

text \<open>The properties \<open>success\<close> and \<open>failed_nodes\<close> of the report.\<close>

definition success :: "RunReport \<Rightarrow> bool" where
  "success rep = list_all (\<lambda>(nid, r). status r = SUCCESS \<or> status r = SKIPPED) (results rep)"

definition failed_nodes :: "RunReport \<Rightarrow> string list" where
  "failed_nodes rep = map fst (filter (\<lambda>(nid, r). status r = FAILURE) (results rep))"

text \<open>
  The messages of the module's logger: the start of a level, \<open>Running\<close> and
  \<open>Finished\<close> around each call of a node's \<open>execute\<close>, and the fail-fast warning.
\<close>

datatype run_event = Level nat "string list" | Running string | Finished string NodeStatus
  | FailFast nat

text \<open>
  What a run works on: the results recorded so far (\<open>report.results\<close>), the shared
  context, the world of the nodes, and the logger's messages.
\<close>

record 'w run_state =
  report :: "(string \<times> NodeResult) list"
  shared :: Context
  world :: 'w
  events :: "run_event list"

text \<open>
  \<open>Runner._should_skip\<close>: some direct predecessor has a recorded result with status
  \<open>FAILURE\<close>.
\<close>

definition should_skip :: "'w Graph \<Rightarrow> (string \<times> NodeResult) list \<Rightarrow> string \<Rightarrow> bool" where
  "should_skip g rep nid =
     list_ex (\<lambda>pred. case map_of rep pred of None \<Rightarrow> False | Some r \<Rightarrow> status r = FAILURE)
       (predecessors g nid)"

text \<open>
  \<open>Runner._run_node\<close>: the node is looked up (\<open>KeyError\<close> when the identifier is not
  registered) and executed; \<open>level\<close> is added to the metadata unless present; the outputs
  of a \<open>SUCCESS\<close> result are merged under the node's identifier, right after the node's
  own \<open>execute\<close> has returned; the result is recorded.
\<close>

definition run_node :: "'w Graph \<Rightarrow> string \<Rightarrow> nat \<Rightarrow> 'w run_state \<Rightarrow> error + 'w run_state" where
  "run_node g nid level_idx st =
     (case get_node g nid of
        Inl e \<Rightarrow> Inl e
      | Inr node \<Rightarrow>
          (case execute node (shared st) (world st) of
             (res, ctx1, w1) \<Rightarrow>
               (let result = res\<lparr>metadata := setdefault ''level'' (VInt (int level_idx)) (metadata res)\<rparr>
                in Inr \<lparr>report = AList.update nid result (report st),
                        shared = (if status result = SUCCESS then merge nid (outputs result) ctx1 else ctx1),
                        world = w1,
                        events = events st @ [Running nid, Finished nid (status result)]\<rparr>)))"

text \<open>
  The first loop over a level: a node that must be skipped is recorded at once, the
  others become the tasks of the level, in the level's order.
\<close>

fun schedule :: "'w Graph \<Rightarrow> nat \<Rightarrow> string list \<Rightarrow> (string \<times> NodeResult) list \<Rightarrow> string list \<Rightarrow>
    (string \<times> NodeResult) list \<times> string list" where
  "schedule g level_idx [] rep tasks = (rep, tasks)"
| "schedule g level_idx (nid # rest) rep tasks =
     (if should_skip g rep nid
      then schedule g level_idx rest
             (AList.update nid
                \<lparr>status = SKIPPED, outputs = [], error = Some ''upstream dependency failed'',
                  metadata = [(''level'', VInt (int level_idx))]\<rparr> rep) tasks
      else schedule g level_idx rest rep (tasks @ [nid]))"

text \<open>
  \<open>await asyncio.gather(*tasks)\<close>. The event loop starts the tasks in the order given
  and runs each until it suspends. In this model a node's \<open>execute\<close> is one uninterrupted
  step (a function from the context and world before it to the result, context and world
  after it), as for every node whose \<open>run\<close> never suspends: the tasks of a level then run
  to completion one after the other. Interleavings of nodes that suspend in the middle of
  \<open>run\<close> are outside this model.
\<close>

fun gather :: "'w Graph \<Rightarrow> nat \<Rightarrow> string list \<Rightarrow> 'w run_state \<Rightarrow> error + 'w run_state" where
  "gather g level_idx [] st = Inr st"
| "gather g level_idx (nid # tasks) st =
     (case run_node g nid level_idx st of
        Inl e \<Rightarrow> Inl e
      | Inr st' \<Rightarrow> gather g level_idx tasks st')"

text \<open>
  \<open>for level_idx, level in enumerate(levels)\<close>: the dry-run branch, the tasks of the
  level, the barrier, and the fail-fast test, which reads a missing result as
  \<open>SUCCESS\<close>.
\<close>

fun run_levels :: "bool \<Rightarrow> bool \<Rightarrow> 'w Graph \<Rightarrow> nat \<Rightarrow> string list list \<Rightarrow> 'w run_state \<Rightarrow>
    error + 'w run_state" where
  "run_levels fail_fast dry_run g level_idx [] st = Inr st"
| "run_levels fail_fast dry_run g level_idx (level # rest) st =
     (let st0 = st\<lparr>events := events st @ [Level level_idx level]\<rparr> in
      if dry_run then
        run_levels fail_fast dry_run g (Suc level_idx) rest
          (st0\<lparr>report :=
             fold (\<lambda>nid. AList.update nid
                     \<lparr>status = SKIPPED, outputs = [], error = None,
                       metadata = [(''dry_run'', VBool True), (''level'', VInt (int level_idx))]\<rparr>)
               level (report st0)\<rparr>)
      else
        (case schedule g level_idx level (report st0) [] of
           (rep1, tasks) \<Rightarrow>
             (case gather g level_idx tasks (st0\<lparr>report := rep1\<rparr>) of
                Inl e \<Rightarrow> Inl e
              | Inr st1 \<Rightarrow>
                  if fail_fast \<and>
                     list_ex (\<lambda>nid. (case map_of (report st1) nid of
                                       None \<Rightarrow> SUCCESS | Some r \<Rightarrow> status r) = FAILURE) level
                  then Inr (st1\<lparr>events := events st1 @ [FailFast level_idx]\<rparr>)
                  else run_levels fail_fast dry_run g (Suc level_idx) rest st1)))"

text \<open>\<open>Runner.run(graph, ctx)\<close>, with the Runner's two flags and the clock.\<close>

definition Runner_run :: "bool \<Rightarrow> bool \<Rightarrow> ('w \<Rightarrow> real) \<Rightarrow> 'w Graph \<Rightarrow> Context \<Rightarrow> 'w \<Rightarrow>
    error + (RunReport \<times> 'w run_state)" where
  "Runner_run fail_fast dry_run clock g c w =
     (let start = clock w in
      case levels g of
        Inl e \<Rightarrow> Inl e
      | Inr lvls \<Rightarrow>
          (case run_levels fail_fast dry_run g 0 lvls \<lparr>report = [], shared = c, world = w, events = []\<rparr> of
             Inl e \<Rightarrow> Inl e
           | Inr st \<Rightarrow>
               Inr (\<lparr>results = report st,
                     duration_ms = py_round1 ((clock (world st) - start) * 1000)\<rparr>, st)))"

section \<open>Properties of the context\<close>

subsection \<open>Namespaced merge\<close>

lemma merge_other:
  "key \<notin> (\<lambda>k. ns @ ''.'' @ k) ` fst ` set kvs \<Longrightarrow> map_of (merge ns kvs d) key = map_of d key"
  by (induction ns kvs d rule: merge.induct) (auto simp: update_conv)

lemma merge_written:
  "is_dict kvs \<Longrightarrow> (k, v) \<in> set kvs \<Longrightarrow> map_of (merge ns kvs d) (ns @ ''.'' @ k) = Some v"
proof (induction ns kvs d rule: merge.induct)
  case (1 ns d)
  then show ?case by simp
next
  case (2 ns k0 v0 kvs d)
  show ?case
  proof (cases "k = k0")
    case True
    with 2(2,3) have v: "v = v0" and fresh: "k \<notin> fst ` set kvs"
      by (auto simp: is_dict_def rev_image_eqI)
    from fresh have "ns @ ''.'' @ k \<notin> (\<lambda>k. ns @ ''.'' @ k) ` fst ` set kvs" by auto
    then show ?thesis using True v by (simp add: merge_other update_conv)
  next
    case False
    with 2 show ?thesis by (auto simp: is_dict_def)
  qed
qed

text \<open>
  \<open>extends_ns ns ns'\<close>: the namespace \<open>ns'\<close> starts with \<open>ns\<close> followed by a dot, as
  \<open>a.b\<close> extends \<open>a\<close>. Two namespaces can address the same key only when they are
  equal or one extends the other.
\<close>

definition extends_ns :: "string \<Rightarrow> string \<Rightarrow> bool" where
  "extends_ns ns ns' = prefix (ns @ ''.'') ns'"

lemma namespaced_key_neq:
  assumes "ns1 \<noteq> ns2" "\<not> extends_ns ns1 ns2" "\<not> extends_ns ns2 ns1"
  shows "ns1 @ ''.'' @ k1 \<noteq> ns2 @ ''.'' @ k2"
proof
  assume "ns1 @ ''.'' @ k1 = ns2 @ ''.'' @ k2"
  then obtain us where
    "ns1 = ns2 @ us \<and> us @ ''.'' @ k1 = ''.'' @ k2 \<or> ns1 @ us = ns2 \<and> ''.'' @ k1 = us @ ''.'' @ k2"
    by (auto simp: append_eq_append_conv2)
  then show False
  proof
    assume a: "ns1 = ns2 @ us \<and> us @ ''.'' @ k1 = ''.'' @ k2"
    with assms(1) have "us \<noteq> []" by auto
    with a obtain us' where "us = CHR ''.'' # us'" by (cases us) auto
    with a have "prefix (ns2 @ ''.'') ns1" by (simp add: prefix_def)
    with assms(3) show False by (simp add: extends_ns_def)
  next
    assume a: "ns1 @ us = ns2 \<and> ''.'' @ k1 = us @ ''.'' @ k2"
    with assms(1) have "us \<noteq> []" by auto
    with a obtain us' where "us = CHR ''.'' # us'" by (cases us) auto
    with a have "prefix (ns1 @ ''.'') ns2" by (auto simp: prefix_def)
    with assms(2) show False by (simp add: extends_ns_def)
  qed
qed

text \<open>
  C6, as stated, fails: the store is flat and the key is the plain concatenation
  \<open>namespace + "." + k\<close>, so the namespaces \<open>a\<close> and \<open>a.b\<close> are distinct and still
  address the same key \<open>a.b.k\<close> (as \<open>b.k\<close> under \<open>a\<close>, as \<open>k\<close> under \<open>a.b\<close>). After
  merging \<open>{"b.k": 1}\<close> under \<open>a\<close>, the read of \<open>a.b.k\<close> gives 1; a later merge of
  \<open>{"k": 2}\<close> under the different namespace \<open>a.b\<close> changes it to 2.
\<close>

theorem merge_cross_namespace_counterexample:
  "''a'' \<noteq> ''a.b'' \<and>
   get (merge ''a'' [(''b.k'', VInt 1)] []) (''a'' @ ''.'' @ ''b.k'') VNone = VInt 1 \<and>
   get (merge ''a.b'' [(''k'', VInt 2)] (merge ''a'' [(''b.k'', VInt 1)] []))
     (''a'' @ ''.'' @ ''b.k'') VNone = VInt 2"
  by (simp add: get_def)

text \<open>
  C6 (amended): for every context \<open>d\<close>, namespace \<open>ns\<close>, dictionary \<open>m\<close> and item
  \<open>k: v\<close> of \<open>m\<close>, \<open>merge(ns, m)\<close> followed by \<open>get("ns.k")\<close> returns \<open>v\<close>. For a second
  namespace \<open>ns'\<close> that differs from \<open>ns\<close>, where neither namespace extends the other by
  a dotted suffix, a later merge of any \<open>m'\<close> under \<open>ns'\<close> leaves that read at \<open>v\<close>, and
  more generally leaves the value read at every key \<open>ns.k'\<close> as it was.
\<close>

theorem merge_then_get:
  assumes "is_dict m" "(k, v) \<in> set m"
    and "ns \<noteq> ns'" "\<not> extends_ns ns ns'" "\<not> extends_ns ns' ns"
  shows "get (merge ns m d) (ns @ ''.'' @ k) dflt = v \<and>
         get (merge ns' m' (merge ns m d)) (ns @ ''.'' @ k) dflt = v \<and>
         get (merge ns' m' d) (ns @ ''.'' @ k') dflt = get d (ns @ ''.'' @ k') dflt"
proof -
  have w: "map_of (merge ns m d) (ns @ ''.'' @ k) = Some v"
    using assms(1,2) by (rule merge_written)
  have o: "\<And>key d. key \<notin> (\<lambda>k. ns' @ ''.'' @ k) ` fst ` set m' \<Longrightarrow>
      map_of (merge ns' m' d) key = map_of d key"
    by (rule merge_other)
  have n: "\<And>k. ns @ ''.'' @ k \<notin> (\<lambda>k. ns' @ ''.'' @ k) ` fst ` set m'"
    using namespaced_key_neq[OF assms(3,4,5)] by auto
  show ?thesis using w o[OF n] by (simp add: get_def)
qed

theorem merge_then_get_witness:
  "get (merge ''a'' [(''x'', VInt 1)] []) ''a.x'' VNone = VInt 1 \<and>
   get (merge ''b'' [(''x'', VInt 2)] (merge ''a'' [(''x'', VInt 1)] [])) ''a.x'' VNone = VInt 1 \<and>
   get (merge ''b'' [(''x'', VInt 2)] [(''a.y'', VInt 7)]) ''a.y'' VNone = VInt 7"
  using merge_then_get[of "[(''x'', VInt 1)]" "''x''" "VInt 1" "''a''" "''b''"
      "[]" VNone "[(''x'', VInt 2)]" "''y''"]
    merge_then_get[of "[(''x'', VInt 1)]" "''x''" "VInt 1" "''a''" "''b''"
      "[(''a.y'', VInt 7)]" VNone "[(''x'', VInt 2)]" "''y''"]
  by (simp add: is_dict_def extends_ns_def get_def)

subsection \<open>Templates\<close>





section \<open>Properties of the node contract\<close>




section \<open>Properties of the graph\<close>

subsection \<open>Registering a node\<close>

lemma update_idem: "AList.update k v (AList.update k v d) = AList.update k v d"
  by (induction d) auto

text \<open>Example nodes over a world that records which nodes ran (the identifiers, in order).\<close>

definition ok_node :: "string \<Rightarrow> (string \<times> pyval) list \<Rightarrow> string list Node" where
  "ok_node i outs =
     \<lparr>node_id = i,
      execute = (\<lambda>c w. (\<lparr>status = SUCCESS, outputs = outs, error = None, metadata = []\<rparr>, c, w @ [i]))\<rparr>"

definition fail_node :: "string \<Rightarrow> string \<Rightarrow> string list Node" where
  "fail_node i msg =
     \<lparr>node_id = i,
      execute = (\<lambda>c w. (\<lparr>status = FAILURE, outputs = [], error = Some msg, metadata = []\<rparr>, c, w @ [i]))\<rparr>"

definition graph_ab :: "string list Graph" where
  "graph_ab = \<lparr>nodes = [(''a'', ok_node ''a'' []), (''b'', ok_node ''b'' [])],
               edges = [(''a'', [''b'']), (''b'', [])],
               reverse = [(''a'', []), (''b'', [''a''])]\<rparr>"

text \<open>
  C4, as stated, fails: \<open>add_node\<close> initialises the adjacency entries with
  \<open>setdefault\<close>, which leaves an existing entry as it is. In the graph built from the
  nodes \<open>a\<close>, \<open>b\<close> and the edge from \<open>a\<close> to \<open>b\<close>, registering a node with the identifier
  \<open>a\<close> again keeps \<open>b\<close> among the successors of \<open>a\<close>, and registering \<open>b\<close> again keeps
  \<open>a\<close> among the predecessors of \<open>b\<close>.
\<close>

theorem add_node_keeps_edges_counterexample:
  "add_edge ''a'' ''b'' (add_node (ok_node ''b'' []) (add_node (ok_node ''a'' []) empty_graph))
     = Inr graph_ab \<and>
   map_of (nodes graph_ab) ''a'' \<noteq> None \<and>
   map_of (edges (add_node (fail_node ''a'' ''x'') graph_ab)) ''a'' = Some [''b''] \<and>
   map_of (reverse (add_node (fail_node ''b'' ''x'') graph_ab)) ''b'' = Some [''a'']"
  by (simp add: add_edge_def add_node_def empty_graph_def graph_ab_def ok_node_def fail_node_def
      setdefault_def set_add_def)

text \<open>
  C4 (amended): for every graph and node \<open>n\<close>, \<open>add_node(n)\<close> stores \<open>n\<close> under its
  identifier, replacing the node registered there if there was one (the identifier keeps
  its place; a new one is appended), and leaves the other registered nodes as they
  were. An identifier that has a forward (reverse) adjacency entry keeps it unchanged;
  one that has none gets the empty set. Every other adjacency entry is unchanged, and
  calling \<open>add_node(n)\<close> twice gives the same graph as calling it once.
\<close>

theorem add_node_effect:
  "get_node (add_node n g) (node_id n) = Inr n \<and>
   node_ids (add_node n g) =
     (if node_id n \<in> set (node_ids g) then node_ids g else node_ids g @ [node_id n]) \<and>
   (\<forall>i. i \<noteq> node_id n \<longrightarrow> map_of (nodes (add_node n g)) i = map_of (nodes g) i) \<and>
   (\<forall>i. map_of (edges (add_node n g)) i =
      (if i = node_id n \<and> map_of (edges g) i = None then Some [] else map_of (edges g) i)) \<and>
   (\<forall>i. map_of (reverse (add_node n g)) i =
      (if i = node_id n \<and> map_of (reverse g) i = None then Some [] else map_of (reverse g) i)) \<and>
   add_node n (add_node n g) = add_node n g"
  by (auto simp: get_node_def add_node_def node_ids_def update_conv update_keys map_of_setdefault
      setdefault_idem update_idem)

theorem add_node_effect_witness:
  "get_node (add_node (fail_node ''a'' ''x'') graph_ab) ''a'' = Inr (fail_node ''a'' ''x'') \<and>
   node_ids (add_node (fail_node ''a'' ''x'') graph_ab) = [''a'', ''b''] \<and>
   map_of (nodes (add_node (fail_node ''a'' ''x'') graph_ab)) ''b'' = Some (ok_node ''b'' []) \<and>
   map_of (edges (add_node (fail_node ''a'' ''x'') graph_ab)) ''a'' = Some [''b''] \<and>
   map_of (edges (add_node (fail_node ''c'' ''x'') graph_ab)) ''c'' = Some [] \<and>
   map_of (reverse (add_node (fail_node ''c'' ''x'') graph_ab)) ''c'' = Some []"
  using add_node_effect[of "fail_node ''a'' ''x''" graph_ab]
    add_node_effect[of "fail_node ''c'' ''x''" graph_ab]
  by (simp add: graph_ab_def fail_node_def node_ids_def)

section \<open>Properties of the retry node\<close>











section \<open>Properties of the Runner\<close>

text \<open>
  The recorded results of the Runner: a node's own result with the level added, and the
  record of a node skipped for an upstream failure.
\<close>

definition upstream_skip :: "nat \<Rightarrow> NodeResult" where
  "upstream_skip level_idx =
     \<lparr>status = SKIPPED, outputs = [], error = Some ''upstream dependency failed'',
       metadata = [(''level'', VInt (int level_idx))]\<rparr>"

definition with_level :: "nat \<Rightarrow> NodeResult \<Rightarrow> NodeResult" where
  "with_level level_idx res = res\<lparr>metadata := setdefault ''level'' (VInt (int level_idx)) (metadata res)\<rparr>"

subsection \<open>Scenario graphs\<close>

text \<open>
  The graphs of the scenarios, for any three (two) nodes with distinct identifiers:
  \<open>fork3\<close> has the edge from the first node to the second and leaves the third alone,
  \<open>chain3\<close> and \<open>chain2\<close> are chains. Each is what \<open>add_node\<close> and \<open>add_edge\<close>
  build, and \<open>levels\<close> is computed on each.
\<close>

definition fork3 :: "'w Node \<Rightarrow> 'w Node \<Rightarrow> 'w Node \<Rightarrow> 'w Graph" where
  "fork3 na nb nc =
     \<lparr>nodes = [(node_id na, na), (node_id nb, nb), (node_id nc, nc)],
      edges = [(node_id na, [node_id nb]), (node_id nb, []), (node_id nc, [])],
      reverse = [(node_id na, []), (node_id nb, [node_id na]), (node_id nc, [])]\<rparr>"

lemma build_fork3:
  assumes "distinct [node_id na, node_id nb, node_id nc]"
  shows "add_edge (node_id na) (node_id nb) (add_node nc (add_node nb (add_node na empty_graph)))
         = Inr (fork3 na nb nc)"
  using assms
  by (auto simp: add_edge_def add_node_def empty_graph_def setdefault_def set_add_def fork3_def)

lemma levels_fork3:
  assumes "distinct [node_id na, node_id nb, node_id nc]"
  shows "levels (fork3 na nb nc) = Inr [[node_id na, node_id nc], [node_id nb]]"
  using assms
  by (auto simp: levels_def fork3_def node_ids_def predecessors_def successors_def)




definition chain2 :: "'w Node \<Rightarrow> 'w Node \<Rightarrow> 'w Graph" where
  "chain2 na nb =
     \<lparr>nodes = [(node_id na, na), (node_id nb, nb)],
      edges = [(node_id na, [node_id nb]), (node_id nb, [])],
      reverse = [(node_id na, []), (node_id nb, [node_id na])]\<rparr>"




lemma levels_chain2:
  assumes "node_id na \<noteq> node_id nb"
  shows "levels (chain2 na nb) = Inr [[node_id na], [node_id nb]]"
  using assms
  by (auto simp: levels_def chain2_def node_ids_def predecessors_def successors_def)



subsection \<open>Upstream failure (Scenario C)\<close>

text \<open>Example: \<open>a\<close> fails, \<open>b\<close> depends on \<open>a\<close>, \<open>c\<close> is independent and succeeds.\<close>

definition fork_abc :: "string list Graph" where
  "fork_abc = fork3 (fail_node ''a'' ''boom'') (ok_node ''b'' []) (ok_node ''c'' [(''y'', VInt 2)])"



text \<open>
  C9, as stated, fails: it asks for a run that is not a dry run, which leaves
  \<open>fail_fast\<close> open. With \<open>fail_fast\<close> set, the failure of \<open>a\<close> in level 0 stops the
  run after that level: \<open>b\<close>, in level 1, is never reached and the report has no entry for
  it, neither \<open>SKIPPED\<close> nor any other.
\<close>

theorem fail_fast_drops_downstream_counterexample:
  "add_edge ''a'' ''b'' (add_node (ok_node ''c'' [(''y'', VInt 2)])
      (add_node (ok_node ''b'' []) (add_node (fail_node ''a'' ''boom'') empty_graph))) = Inr fork_abc \<and>
   Runner_run True False (\<lambda>w. 0) fork_abc [] [] =
     Inr (\<lparr>results =
            [(''a'', \<lparr>status = FAILURE, outputs = [], error = Some ''boom'',
                      metadata = [(''level'', VInt 0)]\<rparr>),
             (''c'', \<lparr>status = SUCCESS, outputs = [(''y'', VInt 2)], error = None,
                      metadata = [(''level'', VInt 0)]\<rparr>)],
           duration_ms = 0\<rparr>,
          \<lparr>report =
            [(''a'', \<lparr>status = FAILURE, outputs = [], error = Some ''boom'',
                      metadata = [(''level'', VInt 0)]\<rparr>),
             (''c'', \<lparr>status = SUCCESS, outputs = [(''y'', VInt 2)], error = None,
                      metadata = [(''level'', VInt 0)]\<rparr>)],
           shared = [(''c.y'', VInt 2)], world = [''a'', ''c''],
           events = [Level 0 [''a'', ''c''], Running ''a'', Finished ''a'' FAILURE,
                     Running ''c'', Finished ''c'' SUCCESS, FailFast 0]\<rparr>) \<and>
   map_of [(''a'', FAILURE), (''c'', SUCCESS)] ''b'' = None"
proof -
  have d: "distinct [node_id (fail_node ''a'' ''boom''), node_id (ok_node ''b'' []),
                     node_id (ok_node ''c'' [(''y'', VInt 2)])]"
    by (simp add: fail_node_def ok_node_def)
  have l: "levels fork_abc = Inr [[''a'', ''c''], [''b'']]"
    unfolding fork_abc_def levels_fork3[OF d] by (simp add: fail_node_def ok_node_def)
  have b: "add_edge ''a'' ''b'' (add_node (ok_node ''c'' [(''y'', VInt 2)])
      (add_node (ok_node ''b'' []) (add_node (fail_node ''a'' ''boom'') empty_graph))) = Inr fork_abc"
    using build_fork3[OF d] by (simp add: fork_abc_def fail_node_def ok_node_def)
  have r: "py_round1 0 = 0" by (simp add: py_round1_def round_half_even_def)
  show ?thesis
    unfolding Runner_run_def l b
    by (simp add: fork_abc_def fork3_def fail_node_def ok_node_def should_skip_def predecessors_def
        run_node_def get_node_def setdefault_def r)
qed

text \<open>
  C9 (amended): in a run with \<open>dry_run\<close> and \<open>fail_fast\<close> both off, over the graph of
  the nodes \<open>a\<close>, \<open>b\<close>, \<open>c\<close> with the one edge from \<open>a\<close> to \<open>b\<close>, where the call of
  \<open>a\<close> returns \<open>FAILURE\<close> and the call of \<open>c\<close> returns \<open>SUCCESS\<close>: the report records
  \<open>a\<close> as \<open>FAILURE\<close>, \<open>b\<close> as \<open>SKIPPED\<close> with the error
  \<open>upstream dependency failed\<close>, and \<open>c\<close> as \<open>SUCCESS\<close>; \<open>success\<close> is false and \<open>a\<close>
  is the only failed node. \<open>b\<close> is never invoked: the logger has no \<open>Running\<close> message
  for it, and the world left behind is the one after the calls of \<open>a\<close> and \<open>c\<close>, whatever
  \<open>b\<close> would do.
\<close>

theorem scenario_c_report:
  assumes d: "distinct [node_id na, node_id nb, node_id nc]"
    and a: "execute na c w = (ra, c1, w1)" and fa: "status ra = FAILURE"
    and cc: "execute nc c1 w1 = (rc, c2, w2)" and sc: "status rc = SUCCESS"
  shows "add_edge (node_id na) (node_id nb) (add_node nc (add_node nb (add_node na empty_graph)))
           = Inr (fork3 na nb nc) \<and>
         (\<exists>rep st.
            Runner_run False False clock (fork3 na nb nc) c w = Inr (rep, st) \<and>
            map_of (results rep) (node_id na) = Some (with_level 0 ra) \<and>
            status (with_level 0 ra) = FAILURE \<and>
            map_of (results rep) (node_id nb) =
              Some \<lparr>status = SKIPPED, outputs = [], error = Some ''upstream dependency failed'',
                    metadata = [(''level'', VInt 1)]\<rparr> \<and>
            map_of (results rep) (node_id nc) = Some (with_level 0 rc) \<and>
            status (with_level 0 rc) = SUCCESS \<and>
            \<not> success rep \<and> failed_nodes rep = [node_id na] \<and>
            Running (node_id nb) \<notin> set (events st) \<and>
            world st = w2 \<and> shared st = merge (node_id nc) (outputs rc) c2)"
proof -
  from d have ne: "node_id na \<noteq> node_id nb" "node_id na \<noteq> node_id nc" "node_id nb \<noteq> node_id nc"
    "node_id nb \<noteq> node_id na" "node_id nc \<noteq> node_id na" "node_id nc \<noteq> node_id nb"
    by auto
  have r: "Runner_run False False clock (fork3 na nb nc) c w =
    Inr (\<lparr>results = [(node_id na, with_level 0 ra), (node_id nc, with_level 0 rc),
                      (node_id nb, upstream_skip 1)],
           duration_ms = py_round1 ((clock w2 - clock w) * 1000)\<rparr>,
         \<lparr>report = [(node_id na, with_level 0 ra), (node_id nc, with_level 0 rc),
                    (node_id nb, upstream_skip 1)],
           shared = merge (node_id nc) (outputs rc) c2, world = w2,
           events = [Level 0 [node_id na, node_id nc], Running (node_id na), Finished (node_id na) FAILURE,
                     Running (node_id nc), Finished (node_id nc) SUCCESS, Level 1 [node_id nb]]\<rparr>)"
    unfolding Runner_run_def levels_fork3[OF d]
    using ne a cc fa sc
    by (simp add: fork3_def should_skip_def predecessors_def run_node_def get_node_def
        with_level_def upstream_skip_def)
  show ?thesis
    unfolding build_fork3[OF d] r
    using fa sc ne
    by (simp add: success_def failed_nodes_def with_level_def upstream_skip_def)
qed

theorem scenario_c_report_witness:
  "\<exists>rep st.
     Runner_run False False (\<lambda>w. 0) fork_abc [] [] = Inr (rep, st) \<and>
     map_of (results rep) ''a'' = Some \<lparr>status = FAILURE, outputs = [], error = Some ''boom'',
                                         metadata = [(''level'', VInt 0)]\<rparr> \<and>
     map_of (results rep) ''b'' = Some \<lparr>status = SKIPPED, outputs = [],
                                         error = Some ''upstream dependency failed'',
                                         metadata = [(''level'', VInt 1)]\<rparr> \<and>
     map_of (results rep) ''c'' = Some \<lparr>status = SUCCESS, outputs = [(''y'', VInt 2)], error = None,
                                         metadata = [(''level'', VInt 0)]\<rparr> \<and>
     \<not> success rep \<and> world st = [''a'', ''c''] \<and> shared st = [(''c.y'', VInt 2)]"
proof -
  let ?A = "fail_node ''a'' ''boom''" and ?B = "ok_node ''b'' []"
    and ?C = "ok_node ''c'' [(''y'', VInt 2)]"
  let ?ra = "\<lparr>status = FAILURE, outputs = [], error = Some ''boom'', metadata = []\<rparr>"
  let ?rc = "\<lparr>status = SUCCESS, outputs = [(''y'', VInt 2)], error = None, metadata = []\<rparr>"
  have d: "distinct [node_id ?A, node_id ?B, node_id ?C]"
    by (simp add: fail_node_def ok_node_def)
  have a: "execute ?A [] [] = (?ra, [], [''a''])"
    by (simp add: fail_node_def)
  have cc: "execute ?C [] [''a''] = (?rc, [], [''a'', ''c''])"
    by (simp add: ok_node_def)
  have fa: "status ?ra = FAILURE" and sc: "status ?rc = SUCCESS" by simp_all
  note t = scenario_c_report[OF d a fa cc sc, where clock = "\<lambda>w. 0", THEN conjunct2]
  then obtain rep st where
    r: "Runner_run False False (\<lambda>w. 0) (fork3 ?A ?B ?C) [] [] = Inr (rep, st)"
    and m: "map_of (results rep) (node_id ?A) = Some (with_level 0 ?ra)"
      "map_of (results rep) (node_id ?B) =
         Some \<lparr>status = SKIPPED, outputs = [], error = Some ''upstream dependency failed'',
               metadata = [(''level'', VInt 1)]\<rparr>"
      "map_of (results rep) (node_id ?C) = Some (with_level 0 ?rc)"
    and x: "\<not> success rep" "world st = [''a'', ''c'']"
      "shared st = merge (node_id ?C) (outputs ?rc) []"
    by (elim exE conjE) (rule that)
  show ?thesis
    by (intro exI[of _ rep] exI[of _ st] conjI)
      (use r m x in \<open>simp_all add: fork_abc_def fail_node_def ok_node_def with_level_def setdefault_def\<close>)
qed

section \<open>Properties of levels\<close>

subsection \<open>Well-formed graphs\<close>

text \<open>
  The invariant of a \<open>Graph\<close> object: the registered identifiers are distinct (they are
  the keys of a dictionary); both adjacency dictionaries have exactly these keys; a set of
  successors or predecessors has no repetition; an edge joins registered nodes, and the
  forward and the reverse dictionary agree on it.
\<close>

definition wf_graph :: "'w Graph \<Rightarrow> bool" where
  "wf_graph g \<longleftrightarrow>
     distinct (node_ids g) \<and>
     set (map fst (edges g)) = set (node_ids g) \<and>
     set (map fst (reverse g)) = set (node_ids g) \<and>
     (\<forall>u \<in> set (node_ids g).
        distinct (successors g u) \<and> distinct (predecessors g u) \<and>
        (\<forall>v \<in> set (successors g u). v \<in> set (node_ids g) \<and> u \<in> set (predecessors g v)) \<and>
        (\<forall>p \<in> set (predecessors g u). p \<in> set (node_ids g) \<and> u \<in> set (successors g p)))"

text \<open>The edges of the graph, as a relation: a cycle of the graph is a cycle of it.\<close>

definition edge_rel :: "'w Graph \<Rightarrow> (string \<times> string) set" where
  "edge_rel g = {(u, v). u \<in> set (node_ids g) \<and> v \<in> set (successors g u)}"


text \<open>
  The empty graph is well-formed, and \<open>add_node\<close> and \<open>add_edge\<close> keep a graph
  well-formed: every graph built through the methods of the class is. On a well-formed
  graph \<open>add_edge\<close> between registered nodes does not raise.
\<close>

lemma wf_graphD_raw:
  assumes "wf_graph g" "u \<in> set (node_ids g)"
  shows "distinct (successors g u) \<and> distinct (predecessors g u) \<and>
        (\<forall>v \<in> set (successors g u). v \<in> set (node_ids g) \<and> u \<in> set (predecessors g v)) \<and>
        (\<forall>p \<in> set (predecessors g u). p \<in> set (node_ids g) \<and> u \<in> set (successors g p))"
  using assms unfolding wf_graph_def by blast

lemma keys_setdefault: "set (map fst (setdefault k v d)) = insert k (set (map fst d))"
  by (auto simp: setdefault_def map_of_eq_None_iff[symmetric] simp del: map_of_eq_None_iff
      split: option.splits) (metis domI dom_map_of_conv_image_fst)+


lemma wf_graph_empty: "wf_graph empty_graph"
  by (simp add: wf_graph_def empty_graph_def node_ids_def)

lemma map_of_None_keys: "map_of d k = None \<longleftrightarrow> k \<notin> set (map fst d)"
  by (simp add: map_of_eq_None_iff)

lemma wf_graph_add_node:
  assumes wf: "wf_graph g"
  shows "wf_graph (add_node n g)"
proof -
  let ?k = "node_id n" and ?g = "add_node n g"
  from wf have dn: "distinct (node_ids g)"
    and ke: "set (map fst (edges g)) = set (node_ids g)"
    and kr: "set (map fst (reverse g)) = set (node_ids g)"
    unfolding wf_graph_def by blast+
  have ids: "node_ids ?g = (if ?k \<in> set (node_ids g) then node_ids g else node_ids g @ [?k])"
    by (simp add: add_node_def node_ids_def update_keys)
  have su: "successors ?g u = (if u = ?k \<and> ?k \<notin> set (node_ids g) then [] else successors g u)" for u
    using ke by (simp add: add_node_def successors_def map_of_setdefault map_of_None_keys
        del: map_of_eq_None_iff set_map)
  have pr: "predecessors ?g u = (if u = ?k \<and> ?k \<notin> set (node_ids g) then [] else predecessors g u)" for u
    using kr by (simp add: add_node_def predecessors_def map_of_setdefault map_of_None_keys
        del: map_of_eq_None_iff set_map)
  have 1: "distinct (node_ids ?g)" using dn ids by simp
  have 2: "set (map fst (edges ?g)) = set (node_ids ?g)"
    using ke ids by (simp add: add_node_def keys_setdefault del: set_map) auto
  have 3: "set (map fst (reverse ?g)) = set (node_ids ?g)"
    using kr ids by (simp add: add_node_def keys_setdefault del: set_map) auto
  have 4: "distinct (successors ?g u) \<and> distinct (predecessors ?g u) \<and>
        (\<forall>v \<in> set (successors ?g u). v \<in> set (node_ids ?g) \<and> u \<in> set (predecessors ?g v)) \<and>
        (\<forall>p \<in> set (predecessors ?g u). p \<in> set (node_ids ?g) \<and> u \<in> set (successors ?g p))"
    if u: "u \<in> set (node_ids ?g)" for u
  proof (cases "u = ?k \<and> ?k \<notin> set (node_ids g)")
    case True
    then show ?thesis by (simp add: su pr)
  next
    case False
    with u ids have uN: "u \<in> set (node_ids g)" by (auto split: if_splits)
    note d = wf_graphD_raw[OF wf uN]
    have a: "v \<in> set (node_ids ?g) \<and> u \<in> set (predecessors ?g v)"
      if "v \<in> set (successors g u)" for v
    proof -
      from d that have v: "v \<in> set (node_ids g)" "u \<in> set (predecessors g v)" by blast+
      then show ?thesis using ids by (auto simp: pr)
    qed
    have b: "p \<in> set (node_ids ?g) \<and> u \<in> set (successors ?g p)"
      if "p \<in> set (predecessors g u)" for p
    proof -
      from d that have p: "p \<in> set (node_ids g)" "u \<in> set (successors g p)" by blast+
      then show ?thesis using ids by (auto simp: su)
    qed
    from False d a b show ?thesis by (simp add: su pr)
  qed
  from 1 2 3 4 show ?thesis unfolding wf_graph_def by blast
qed

lemma set_set_add: "set (set_add x xs) = insert x (set xs)"
  by (auto simp: set_add_def)

lemma distinct_set_add: "distinct xs \<Longrightarrow> distinct (set_add x xs)"
  by (simp add: set_add_def)

lemma keys_update_present: "k \<in> set (map fst d) \<Longrightarrow> map fst (AList.update k v d) = map fst d"
  by (simp add: update_keys)

lemma wf_graph_add_edge:
  assumes wf: "wf_graph g" and ae: "add_edge s t g = Inr g'"
  shows "wf_graph g'"
proof -
  from wf have dn: "distinct (node_ids g)"
    and ke: "set (map fst (edges g)) = set (node_ids g)"
    and kr: "set (map fst (reverse g)) = set (node_ids g)"
    unfolding wf_graph_def by blast+
  from ae obtain ss ps where
    sN: "map_of (nodes g) s \<noteq> None" and tN: "map_of (nodes g) t \<noteq> None"
    and ss: "map_of (edges g) s = Some ss" and ps: "map_of (reverse g) t = Some ps"
    and g': "g' = g\<lparr>edges := AList.update s (set_add t ss) (edges g),
                     reverse := AList.update t (set_add s ps) (reverse g)\<rparr>"
    by (auto simp: add_edge_def split: if_splits option.splits)
  from sN have s: "s \<in> set (node_ids g)"
    by (simp add: node_ids_def map_of_eq_None_iff)
  from tN have t: "t \<in> set (node_ids g)"
    by (simp add: node_ids_def map_of_eq_None_iff)
  have ids: "node_ids g' = node_ids g" by (simp add: g' node_ids_def)
  have su: "successors g' u = (if u = s then set_add t (successors g s) else successors g u)" for u
    using ss by (simp add: g' successors_def update_conv)
  have pr: "predecessors g' u = (if u = t then set_add s (predecessors g t) else predecessors g u)" for u
    using ps by (simp add: g' predecessors_def update_conv)
  have "s \<in> set (map fst (edges g))" unfolding ke by (rule s)
  then have ke': "map fst (edges g') = map fst (edges g)"
    unfolding g' by (simp add: keys_update_present del: set_map)
  have "t \<in> set (map fst (reverse g))" unfolding kr by (rule t)
  then have kr': "map fst (reverse g') = map fst (reverse g)"
    unfolding g' by (simp add: keys_update_present del: set_map)
  have 2: "set (map fst (edges g')) = set (node_ids g')"
    unfolding ke' ids by (rule ke)
  have 3: "set (map fst (reverse g')) = set (node_ids g')"
    unfolding kr' ids by (rule kr)
  have 4: "distinct (successors g' u) \<and> distinct (predecessors g' u) \<and>
        (\<forall>v \<in> set (successors g' u). v \<in> set (node_ids g') \<and> u \<in> set (predecessors g' v)) \<and>
        (\<forall>p \<in> set (predecessors g' u). p \<in> set (node_ids g') \<and> u \<in> set (successors g' p))"
    if u: "u \<in> set (node_ids g')" for u
  proof -
    from u ids have uN: "u \<in> set (node_ids g)" by simp
    note d = wf_graphD_raw[OF wf uN]
    note ds = wf_graphD_raw[OF wf s]
    note dt = wf_graphD_raw[OF wf t]
    have a: "distinct (successors g' u)" "distinct (predecessors g' u)"
      using d ds dt by (simp_all add: su pr distinct_set_add)
    have b: "v \<in> set (node_ids g') \<and> u \<in> set (predecessors g' v)"
      if v: "v \<in> set (successors g' u)" for v
    proof (cases "u = s \<and> v = t")
      case True
      then show ?thesis using t by (simp add: ids pr set_set_add)
    next
      case False
      with v have "v \<in> set (successors g u)" by (auto simp: su set_set_add split: if_splits)
      with d have "v \<in> set (node_ids g)" "u \<in> set (predecessors g v)" by blast+
      then show ?thesis by (auto simp: ids pr set_set_add)
    qed
    have c: "p \<in> set (node_ids g') \<and> u \<in> set (successors g' p)"
      if p: "p \<in> set (predecessors g' u)" for p
    proof (cases "u = t \<and> p = s")
      case True
      then show ?thesis using s by (simp add: ids su set_set_add)
    next
      case False
      with p have "p \<in> set (predecessors g u)" by (auto simp: pr set_set_add split: if_splits)
      with d have "p \<in> set (node_ids g)" "u \<in> set (successors g p)" by blast+
      then show ?thesis by (auto simp: ids su set_set_add)
    qed
    from a b c show ?thesis by blast
  qed
  from dn ids have 1: "distinct (node_ids g')" by simp
  from 1 2 3 4 show ?thesis unfolding wf_graph_def by blast
qed

lemma add_edge_registered:
  assumes wf: "wf_graph g" and s: "s \<in> set (node_ids g)" and t: "t \<in> set (node_ids g)"
  shows "\<exists>g'. add_edge s t g = Inr g'"
proof -
  from wf have ke: "set (map fst (edges g)) = set (node_ids g)"
    and kr: "set (map fst (reverse g)) = set (node_ids g)"
    unfolding wf_graph_def by blast+
  from s have 1: "map_of (nodes g) s \<noteq> None" by (simp add: node_ids_def map_of_eq_None_iff)
  from t have 2: "map_of (nodes g) t \<noteq> None" by (simp add: node_ids_def map_of_eq_None_iff)
  from s ke have 3: "map_of (edges g) s \<noteq> None"
    by (simp add: map_of_None_keys del: set_map)
  from t kr have 4: "map_of (reverse g) t \<noteq> None"
    by (simp add: map_of_None_keys del: set_map)
  from 1 2 3 4 show ?thesis by (auto simp: add_edge_def)
qed

subsection \<open>The loops of Kahn's algorithm\<close>

text \<open>
  \<open>ind_ok g ind D\<close>: the in-degree dictionary has the registered nodes as keys and
  holds, for each node, the number of its predecessors outside \<open>D\<close>, the set of the nodes
  taken from the queue so far.
\<close>

definition ind_ok :: "'w Graph \<Rightarrow> (string \<times> int) list \<Rightarrow> string set \<Rightarrow> bool" where
  "ind_ok g ind D \<longleftrightarrow>
     map fst ind = node_ids g \<and>
     (\<forall>v \<in> set (node_ids g). map_of ind v = Some (int (card (set (predecessors g v) - D))))"

lemma relax_effect:
  assumes "distinct ss" "set ss \<subseteq> fst ` set ind"
  shows "\<exists>ind'. relax ss ind q = Inr (ind', q @ filter (\<lambda>s. map_of ind s = Some 1) ss) \<and>
           map fst ind' = map fst ind \<and>
           (\<forall>v. map_of ind' v =
              (if v \<in> set ss then map_option (\<lambda>d. d - 1) (map_of ind v) else map_of ind v))"
  using assms
proof (induction ss arbitrary: ind q)
  case Nil
  then show ?case by simp
next
  case (Cons s ss)
  from Cons.prems have "s \<in> fst ` set ind" by simp
  then obtain d where d: "map_of ind s = Some d"
    by (metis map_of_eq_None_iff not_Some_eq)
  let ?ind1 = "AList.update s (d - 1) ind"
  let ?q1 = "if d - 1 = 0 then q @ [s] else q"
  from d have sk: "s \<in> fst ` set ind" by (metis map_of_eq_None_iff option.distinct(1))
  have k1: "map fst ?ind1 = map fst ind"
    using sk by (simp add: update_keys)
  have sub: "set ss \<subseteq> fst ` set ?ind1"
    using Cons.prems k1 by (metis list.set_map set_subset_Cons subset_trans)
  from Cons.prems have dss: "distinct ss" and sn: "s \<notin> set ss" by auto
  from Cons.IH[OF dss sub, of ?q1] obtain ind' where
    r: "relax ss ?ind1 ?q1 = Inr (ind', ?q1 @ filter (\<lambda>s. map_of ?ind1 s = Some 1) ss)"
    and k: "map fst ind' = map fst ?ind1"
    and m: "\<forall>v. map_of ind' v =
              (if v \<in> set ss then map_option (\<lambda>d. d - 1) (map_of ?ind1 v) else map_of ?ind1 v)"
    by blast
  have f: "filter (\<lambda>s. map_of ?ind1 s = Some 1) ss = filter (\<lambda>s. map_of ind s = Some 1) ss"
    using sn by (intro filter_cong) (auto simp: update_conv)
  have q: "?q1 @ filter (\<lambda>s. map_of ?ind1 s = Some 1) ss =
           q @ filter (\<lambda>s. map_of ind s = Some 1) (s # ss)"
    using d f by auto
  have m': "\<forall>v. map_of ind' v =
              (if v \<in> set (s # ss) then map_option (\<lambda>d. d - 1) (map_of ind v) else map_of ind v)"
    using m sn d by (auto simp: update_conv)
  show ?case
    using r k k1 m' d unfolding q by auto
qed

lemma card_diff_insert:
  assumes "finite A" "u \<in> A" "u \<notin> D"
  shows "int (card (A - D)) - 1 = int (card (A - insert u D))"
proof -
  have "A - insert u D = (A - D) - {u}" by auto
  moreover have "u \<in> A - D" using assms by simp
  moreover have "finite (A - D)" using assms by simp
  ultimately have "card (A - insert u D) = card (A - D) - 1" and "0 < card (A - D)"
    by (auto simp: card_gt_0_iff)
  then show ?thesis by simp
qed

lemma card_diff_one_iff:
  assumes "finite A" "u \<in> A" "u \<notin> D"
  shows "card (A - D) = 1 \<longleftrightarrow> A \<subseteq> insert u D"
proof
  assume "card (A - D) = 1"
  then obtain x where x: "A - D = {x}" by (auto simp: card_1_singleton_iff)
  from assms have "u \<in> A - D" by simp
  with x have "A - D = {u}" by simp
  then show "A \<subseteq> insert u D" by blast
next
  assume "A \<subseteq> insert u D"
  with assms have "A - D = {u}" by auto
  then show "card (A - D) = 1" by simp
qed

lemma wf_graphD:
  assumes "wf_graph g" "u \<in> set (node_ids g)"
  shows "distinct (successors g u)" "distinct (predecessors g u)"
    "\<And>v. v \<in> set (successors g u) \<Longrightarrow> v \<in> set (node_ids g)"
    "\<And>v. v \<in> set (successors g u) \<Longrightarrow> u \<in> set (predecessors g v)"
    "\<And>p. p \<in> set (predecessors g u) \<Longrightarrow> p \<in> set (node_ids g)"
    "\<And>p. p \<in> set (predecessors g u) \<Longrightarrow> u \<in> set (successors g p)"
proof -
  from assms have *: "distinct (successors g u) \<and> distinct (predecessors g u) \<and>
        (\<forall>v \<in> set (successors g u). v \<in> set (node_ids g) \<and> u \<in> set (predecessors g v)) \<and>
        (\<forall>p \<in> set (predecessors g u). p \<in> set (node_ids g) \<and> u \<in> set (successors g p))"
    unfolding wf_graph_def by blast
  from * show "distinct (successors g u)" "distinct (predecessors g u)" by blast+
  from * show "\<And>v. v \<in> set (successors g u) \<Longrightarrow> v \<in> set (node_ids g)" by blast
  from * show "\<And>v. v \<in> set (successors g u) \<Longrightarrow> u \<in> set (predecessors g v)" by blast
  from * show "\<And>p. p \<in> set (predecessors g u) \<Longrightarrow> p \<in> set (node_ids g)" by blast
  from * show "\<And>p. p \<in> set (predecessors g u) \<Longrightarrow> u \<in> set (successors g p)" by blast
qed

lemma relax_ind_ok:
  assumes wf: "wf_graph g" and u: "u \<in> set (node_ids g)" "u \<notin> D" and ok: "ind_ok g ind D"
  shows "\<exists>ind'. relax (successors g u) ind q =
             Inr (ind', q @ filter (\<lambda>s. set (predecessors g s) \<subseteq> insert u D) (successors g u)) \<and>
           ind_ok g ind' (insert u D)"
proof -
  note ds = wf_graphD(1)[OF wf u(1)]
  have sn: "\<And>v. v \<in> set (successors g u) \<Longrightarrow> v \<in> set (node_ids g) \<and> u \<in> set (predecessors g v)"
    using wf_graphD(3,4)[OF wf u(1)] by blast
  have bk: "\<And>v p. v \<in> set (node_ids g) \<Longrightarrow> p \<in> set (predecessors g v) \<Longrightarrow>
      v \<in> set (successors g p)"
    using wf_graphD(6)[OF wf] by blast
  from ok have keys: "map fst ind = node_ids g"
    and val: "\<And>v. v \<in> set (node_ids g) \<Longrightarrow>
        map_of ind v = Some (int (card (set (predecessors g v) - D)))"
    by (auto simp: ind_ok_def)
  have "fst ` set ind = set (node_ids g)"
    using keys by (metis list.set_map)
  with sn have sub: "set (successors g u) \<subseteq> fst ` set ind" by blast
  from relax_effect[OF ds sub, of q] obtain ind' where
    r: "relax (successors g u) ind q =
          Inr (ind', q @ filter (\<lambda>s. map_of ind s = Some 1) (successors g u))"
    and k: "map fst ind' = map fst ind"
    and m: "\<And>v. map_of ind' v =
              (if v \<in> set (successors g u) then map_option (\<lambda>d. d - 1) (map_of ind v)
               else map_of ind v)"
    by (elim exE conjE) (rule that, assumption+, simp)
  have f: "filter (\<lambda>s. map_of ind s = Some 1) (successors g u) =
           filter (\<lambda>s. set (predecessors g s) \<subseteq> insert u D) (successors g u)"
  proof (rule filter_cong[OF refl])
    fix s assume s: "s \<in> set (successors g u)"
    with sn have sN: "s \<in> set (node_ids g)" and up: "u \<in> set (predecessors g s)" by auto
    have "map_of ind s = Some 1 \<longleftrightarrow> card (set (predecessors g s) - D) = 1"
      using val[OF sN] by simp
    also have "\<dots> \<longleftrightarrow> set (predecessors g s) \<subseteq> insert u D"
      using card_diff_one_iff[OF _ up u(2)] by simp
    finally show "(map_of ind s = Some 1) = (set (predecessors g s) \<subseteq> insert u D)" .
  qed
  have "ind_ok g ind' (insert u D)"
    unfolding ind_ok_def
  proof (intro conjI ballI)
    show "map fst ind' = node_ids g" using k keys by simp
  next
    fix v assume v: "v \<in> set (node_ids g)"
    show "map_of ind' v = Some (int (card (set (predecessors g v) - insert u D)))"
    proof (cases "v \<in> set (successors g u)")
      case True
      with sn have up: "u \<in> set (predecessors g v)" by auto
      from True m[of v] val[OF v]
      have "map_of ind' v = Some (int (card (set (predecessors g v) - D)) - 1)" by simp
      with card_diff_insert[OF _ up u(2)] show ?thesis by simp
    next
      case False
      with bk[OF v] have "u \<notin> set (predecessors g v)" by auto
      then have "set (predecessors g v) - insert u D = set (predecessors g v) - D" by auto
      with False m[of v] val[OF v] show ?thesis by simp
    qed
  qed
  with r f show ?thesis by auto
qed

lemma drain_spec:
  assumes wf: "wf_graph g"
  shows "D0 \<subseteq> D \<Longrightarrow> distinct cur \<Longrightarrow> set cur \<subseteq> set (node_ids g) \<Longrightarrow> set cur \<inter> D = {} \<Longrightarrow>
    (\<forall>v \<in> set cur. set (predecessors g v) \<subseteq> D0) \<Longrightarrow>
    ind_ok g ind D \<Longrightarrow> distinct new \<Longrightarrow>
    set new = {v \<in> set (node_ids g). set (predecessors g v) \<subseteq> D \<and> \<not> set (predecessors g v) \<subseteq> D0} \<Longrightarrow>
    \<exists>ind' new'.
      drain g (length cur) ind (cur @ new) lvl vis = Inr (ind', new', lvl @ cur, vis + int (length cur)) \<and>
      ind_ok g ind' (D \<union> set cur) \<and> distinct new' \<and>
      set new' = {v \<in> set (node_ids g).
                   set (predecessors g v) \<subseteq> D \<union> set cur \<and> \<not> set (predecessors g v) \<subseteq> D0}"
proof (induction cur arbitrary: ind new lvl vis D)
  case Nil
  then show ?case by simp
next
  case (Cons u cur)
  from Cons.prems have uN: "u \<in> set (node_ids g)" and uD: "u \<notin> D" by auto
  let ?F = "\<lambda>s. set (predecessors g s) \<subseteq> insert u D"
  let ?new1 = "new @ filter ?F (successors g u)"
  from relax_ind_ok[OF wf uN uD Cons.prems(6), of "cur @ new"] obtain ind1 where
    r: "relax (successors g u) ind (cur @ new) = Inr (ind1, cur @ ?new1)"
    and ok1: "ind_ok g ind1 (insert u D)"
    by auto
  note sd = wf_graphD(1)[OF wf uN]
  note sN = wf_graphD(3)[OF wf uN]
  note sP = wf_graphD(4)[OF wf uN]
  have bk: "\<And>v. v \<in> set (node_ids g) \<Longrightarrow> u \<in> set (predecessors g v) \<Longrightarrow>
      v \<in> set (successors g u)"
    using wf_graphD(6)[OF wf] by blast
  have p1: "D0 \<subseteq> insert u D" using Cons.prems(1) by auto
  have p2: "distinct cur" using Cons.prems(2) by simp
  have p3: "set cur \<subseteq> set (node_ids g)" using Cons.prems(3) by simp
  have p4: "set cur \<inter> insert u D = {}" using Cons.prems(2,4) by auto
  have p5: "\<forall>v \<in> set cur. set (predecessors g v) \<subseteq> D0" using Cons.prems(5) by simp
  have d0: "u \<notin> D0" using uD Cons.prems(1) by auto
  have p7: "distinct ?new1"
  proof -
    have "set new \<inter> set (filter ?F (successors g u)) = {}"
    proof (rule ccontr)
      assume "set new \<inter> set (filter ?F (successors g u)) \<noteq> {}"
      then obtain s where s: "s \<in> set new" "s \<in> set (successors g u)" by auto
      from s(1) Cons.prems(8) have "set (predecessors g s) \<subseteq> D" by simp
      with sP[OF s(2)] uD show False by auto
    qed
    with Cons.prems(7) sd show ?thesis by simp
  qed
  have p8: "set ?new1 = {v \<in> set (node_ids g).
      set (predecessors g v) \<subseteq> insert u D \<and> \<not> set (predecessors g v) \<subseteq> D0}"
  proof (intro set_eqI iffI)
    fix v assume "v \<in> set ?new1"
    then consider "v \<in> set new" | "v \<in> set (successors g u)" "?F v" by auto
    then show "v \<in> {v \<in> set (node_ids g).
      set (predecessors g v) \<subseteq> insert u D \<and> \<not> set (predecessors g v) \<subseteq> D0}"
    proof cases
      case 1
      with Cons.prems(8) show ?thesis by auto
    next
      case 2
      with sN[OF 2(1)] sP[OF 2(1)] d0 show ?thesis by auto
    qed
  next
    fix v assume "v \<in> {v \<in> set (node_ids g).
      set (predecessors g v) \<subseteq> insert u D \<and> \<not> set (predecessors g v) \<subseteq> D0}"
    then have v: "v \<in> set (node_ids g)" "set (predecessors g v) \<subseteq> insert u D"
      "\<not> set (predecessors g v) \<subseteq> D0" by auto
    show "v \<in> set ?new1"
    proof (cases "set (predecessors g v) \<subseteq> D")
      case True
      with v Cons.prems(8) show ?thesis by simp
    next
      case False
      with v(2) have "u \<in> set (predecessors g v)" by auto
      from bk[OF v(1) this] v(2) show ?thesis by simp
    qed
  qed
  from Cons.IH[OF p1 p2 p3 p4 p5 ok1 p7 p8, of "lvl @ [u]" "vis + 1"]
  obtain ind' new' where
    dr: "drain g (length cur) ind1 (cur @ ?new1) (lvl @ [u]) (vis + 1) =
           Inr (ind', new', (lvl @ [u]) @ cur, vis + 1 + int (length cur))"
    and ok': "ind_ok g ind' (insert u D \<union> set cur)"
    and dn: "distinct new'"
    and sn: "set new' = {v \<in> set (node_ids g).
        set (predecessors g v) \<subseteq> insert u D \<union> set cur \<and> \<not> set (predecessors g v) \<subseteq> D0}"
    by blast
  have e: "insert u D \<union> set cur = D \<union> set (u # cur)" by auto
  have "drain g (length (u # cur)) ind ((u # cur) @ new) lvl vis =
      Inr (ind', new', lvl @ u # cur, vis + int (length (u # cur)))"
    using r dr by simp
  with ok' dn sn show ?case unfolding e by blast
qed

text \<open>
  \<open>levels_ok g lvls\<close>: every level is non-empty, without repetition, and holds exactly
  the registered nodes that are in no earlier level and have all their predecessors in
  earlier levels. \<open>frontier g D\<close> is the level that follows the nodes \<open>D\<close>.
\<close>

definition levels_ok :: "'w Graph \<Rightarrow> string list list \<Rightarrow> bool" where
  "levels_ok g lvls \<longleftrightarrow>
     (\<forall>k < length lvls.
        distinct (lvls ! k) \<and> lvls ! k \<noteq> [] \<and>
        set (lvls ! k) =
          {v \<in> set (node_ids g). v \<notin> set (concat (take k lvls)) \<and>
             set (predecessors g v) \<subseteq> set (concat (take k lvls))})"

lemma levels_ok_Nil: "levels_ok g []"
  by (simp add: levels_ok_def)

lemma levels_ok_snoc:
  "levels_ok g (lvls @ [l]) \<longleftrightarrow>
     levels_ok g lvls \<and> distinct l \<and> l \<noteq> [] \<and>
     set l = {v \<in> set (node_ids g). v \<notin> set (concat lvls) \<and>
                set (predecessors g v) \<subseteq> set (concat lvls)}"
  unfolding levels_ok_def
  by (simp add: less_Suc_eq all_conj_distrib nth_append cong: conj_cong)

lemma levels_ok_facts:
  assumes "levels_ok g lvls"
  shows "set (concat lvls) \<subseteq> set (node_ids g)"
    and "\<And>v. v \<in> set (concat lvls) \<Longrightarrow> set (predecessors g v) \<subseteq> set (concat lvls)"
    and "distinct (concat lvls)"
  using assms
proof (induction lvls rule: rev_induct)
  case Nil
  { case 1 show ?case by simp }
  { case 2 then show ?case by simp }
  { case 3 show ?case by simp }
next
  case (snoc l lvls)
  { case 1
    with snoc(1) show ?case by (auto simp: levels_ok_snoc) }
  { case 2
    with snoc(2)[of v] show ?case by (auto simp: levels_ok_snoc) }
  { case 3
    with snoc(3) show ?case by (auto simp: levels_ok_snoc) }
qed

definition frontier :: "'w Graph \<Rightarrow> string set \<Rightarrow> string set" where
  "frontier g D = {v \<in> set (node_ids g). v \<notin> D \<and> set (predecessors g v) \<subseteq> D}"

lemma levels_loop_spec:
  shows "wf_graph g \<Longrightarrow> levels_ok g lvls \<Longrightarrow> ind_ok g ind (set (concat lvls)) \<Longrightarrow> distinct q \<Longrightarrow>
    set q = frontier g (set (concat lvls)) \<Longrightarrow> vis = int (length (concat lvls)) \<Longrightarrow>
    \<exists>lvls'. levels_loop g ind q lvls vis = Inr (lvls', int (length (concat lvls'))) \<and>
      levels_ok g lvls' \<and> frontier g (set (concat lvls')) = {}"
proof (induction g ind q lvls vis rule: levels_loop.induct)
  case (1 g ind q lvls visited)
  note wf = 1(2)
  let ?D = "set (concat lvls)"
  show ?case
  proof (cases "q = []")
    case True
    with 1(3-) show ?thesis by auto
  next
    case False
    have c1: "?D \<subseteq> ?D" by simp
    have c3: "set q \<subseteq> set (node_ids g)" using 1(6) by (auto simp: frontier_def)
    have c4: "set q \<inter> ?D = {}" using 1(6) by (auto simp: frontier_def)
    have c5: "\<forall>v \<in> set q. set (predecessors g v) \<subseteq> ?D" using 1(6) by (auto simp: frontier_def)
    have c8: "set [] = {v \<in> set (node_ids g).
        set (predecessors g v) \<subseteq> ?D \<and> \<not> set (predecessors g v) \<subseteq> ?D}" by simp
    have c7: "distinct ([]::string list)" by simp
    from drain_spec[OF wf c1 1(5) c3 c4 c5 1(4) c7 c8, of "[]" visited]
    obtain ind' new' where
      dr: "drain g (length q) ind q [] visited = Inr (ind', new', q, visited + int (length q))"
      and ok': "ind_ok g ind' (?D \<union> set q)"
      and dn: "distinct new'"
      and sn: "set new' = {v \<in> set (node_ids g).
          set (predecessors g v) \<subseteq> ?D \<union> set q \<and> \<not> set (predecessors g v) \<subseteq> ?D}"
      by auto
    have lo: "levels_ok g (lvls @ [q])"
      using 1(3,5,6) False by (simp add: levels_ok_snoc frontier_def)
    have cc: "set (concat (lvls @ [q])) = ?D \<union> set q" by simp
    have closed: "\<And>v. v \<in> ?D \<Longrightarrow> set (predecessors g v) \<subseteq> ?D"
      using levels_ok_facts(2)[OF 1(3)] by blast
    have fr: "set new' = frontier g (set (concat (lvls @ [q])))"
      unfolding cc sn frontier_def
    proof (intro set_eqI iffI)
      fix v assume "v \<in> {v \<in> set (node_ids g).
          set (predecessors g v) \<subseteq> ?D \<union> set q \<and> \<not> set (predecessors g v) \<subseteq> ?D}"
      then have v: "v \<in> set (node_ids g)" "set (predecessors g v) \<subseteq> ?D \<union> set q"
        "\<not> set (predecessors g v) \<subseteq> ?D" by auto
      from v(3) closed have "v \<notin> ?D" by blast
      moreover from v(3) c5 have "v \<notin> set q" by blast
      ultimately show "v \<in> {v \<in> set (node_ids g). v \<notin> ?D \<union> set q \<and>
          set (predecessors g v) \<subseteq> ?D \<union> set q}"
        using v by simp
    next
      fix v assume "v \<in> {v \<in> set (node_ids g). v \<notin> ?D \<union> set q \<and>
          set (predecessors g v) \<subseteq> ?D \<union> set q}"
      then have v: "v \<in> set (node_ids g)" "v \<notin> ?D" "v \<notin> set q"
        "set (predecessors g v) \<subseteq> ?D \<union> set q" by auto
      from v(1,2,3) 1(6) have "\<not> set (predecessors g v) \<subseteq> ?D" by (auto simp: frontier_def)
      with v show "v \<in> {v \<in> set (node_ids g).
          set (predecessors g v) \<subseteq> ?D \<union> set q \<and> \<not> set (predecessors g v) \<subseteq> ?D}"
        by simp
    qed
    have ok'': "ind_ok g ind' (set (concat (lvls @ [q])))" using ok' by simp
    have vv: "visited + int (length q) = int (length (concat (lvls @ [q])))"
      using 1(7) by simp
    from 1(1)[OF False dr refl refl refl wf lo ok'' dn fr vv]
    obtain lvls' where
      "levels_loop g ind' new' (lvls @ [q]) (visited + int (length q)) =
         Inr (lvls', int (length (concat lvls')))"
      "levels_ok g lvls'" "frontier g (set (concat lvls')) = {}"
      by blast
    with False dr show ?thesis by simp
  qed
qed

lemma map_of_tabulate:
  "v \<in> set ks \<Longrightarrow> map_of (map (\<lambda>k. (k, f k)) ks) v = Some (f v)"
  by (induction ks) auto

lemma initial_queue:
  "map fst (filter (\<lambda>(nid, deg). deg = 0) (map (\<lambda>nid. (nid, int (length (ps nid)))) ks)) =
   filter (\<lambda>nid. ps nid = []) ks"
  by (induction ks) auto

lemma levels_result:
  assumes wf: "wf_graph g"
  shows "\<exists>lvls. levels_ok g lvls \<and> frontier g (set (concat lvls)) = {} \<and>
           levels g =
             (if set (concat lvls) = set (node_ids g) then Inr lvls
              else Inl (CycleError (int (length (concat lvls))) (int (length (nodes g))))) \<and>
           length (concat lvls) \<le> length (nodes g)"
proof -
  let ?ind = "map (\<lambda>nid. (nid, int (length (predecessors g nid)))) (node_ids g)"
  let ?q = "map fst (filter (\<lambda>(nid, deg). deg = 0) ?ind)"
  from wf have dn: "distinct (node_ids g)" by (simp add: wf_graph_def)
  have q: "?q = filter (\<lambda>nid. predecessors g nid = []) (node_ids g)"
    by (rule initial_queue)
  have ok: "ind_ok g ?ind (set (concat []))"
    unfolding ind_ok_def
  proof (intro conjI ballI)
    show "map fst ?ind = node_ids g" by (simp add: comp_def)
  next
    fix v assume v: "v \<in> set (node_ids g)"
    from wf_graphD(2)[OF wf v] have "card (set (predecessors g v)) = length (predecessors g v)"
      by (rule distinct_card)
    with map_of_tabulate[OF v, of "\<lambda>nid. int (length (predecessors g nid))"]
    show "map_of ?ind v = Some (int (card (set (predecessors g v) - set (concat []))))"
      by simp
  qed
  have dq: "distinct ?q" unfolding q using dn by simp
  have sq: "set ?q = frontier g (set (concat []))"
    unfolding q by (auto simp: frontier_def)
  have "(0::int) = int (length (concat ([]::string list list)))" by simp
  from levels_loop_spec[OF wf levels_ok_Nil ok dq sq this]
  obtain lvls where
    r: "levels_loop g ?ind ?q [] 0 = Inr (lvls, int (length (concat lvls)))"
    and lo: "levels_ok g lvls" and fr: "frontier g (set (concat lvls)) = {}"
    by blast
  note f = levels_ok_facts[OF lo]
  have "card (set (node_ids g)) = length (node_ids g)"
    using dn by (rule distinct_card)
  then have ln: "length (nodes g) = card (set (node_ids g))"
    by (simp add: node_ids_def)
  have lc: "length (concat lvls) = card (set (concat lvls))"
    by (rule distinct_card[OF f(3), symmetric])
  have le: "card (set (concat lvls)) \<le> card (set (node_ids g))"
    by (rule card_mono[OF finite_set f(1)])
  have eq: "card (set (concat lvls)) = card (set (node_ids g)) \<longleftrightarrow>
            set (concat lvls) = set (node_ids g)"
    by (metis card_subset_eq[OF finite_set f(1)])
  have ne: "(int (length (concat lvls)) \<noteq> int (length (nodes g))) =
            (set (concat lvls) \<noteq> set (node_ids g))"
    unfolding ln lc using eq by simp
  have "levels g =
             (if set (concat lvls) = set (node_ids g) then Inr lvls
              else Inl (CycleError (int (length (concat lvls))) (int (length (nodes g)))))"
    unfolding levels_def Let_def r by (simp only: sum.case prod.case ne if_not_P if_P split: if_split) simp
  moreover have "length (concat lvls) \<le> length (nodes g)"
    unfolding ln lc by (rule le)
  ultimately show ?thesis using lo fr by blast
qed

subsection \<open>Level indices\<close>

text \<open>The index of the first level that holds a node.\<close>

fun level_of :: "string list list \<Rightarrow> string \<Rightarrow> nat option" where
  "level_of [] v = None"
| "level_of (l # ls) v = (if v \<in> set l then Some 0 else map_option Suc (level_of ls v))"

lemma level_of_Some_iff:
  "level_of lvls v = Some k \<longleftrightarrow>
     k < length lvls \<and> v \<in> set (lvls ! k) \<and> v \<notin> set (concat (take k lvls))"
proof (induction lvls arbitrary: k)
  case Nil
  then show ?case by simp
next
  case (Cons l ls)
  show ?case
  proof (cases k)
    case 0
    then show ?thesis by auto
  next
    case (Suc j)
    with Cons[of j] show ?thesis by auto
  qed
qed

lemma levels_okD:
  assumes "levels_ok g lvls" "k < length lvls"
  shows "set (lvls ! k) =
          {v \<in> set (node_ids g). v \<notin> set (concat (take k lvls)) \<and>
             set (predecessors g v) \<subseteq> set (concat (take k lvls))}"
  using assms unfolding levels_ok_def by blast

lemma in_concat_take:
  "p \<in> set (concat (take k lvls)) \<longleftrightarrow> (\<exists>j < k. j < length lvls \<and> p \<in> set (lvls ! j))"
proof
  assume "p \<in> set (concat (take k lvls))"
  then obtain l where l: "l \<in> set (take k lvls)" "p \<in> set l" by auto
  then obtain j where "j < length (take k lvls)" "take k lvls ! j = l"
    by (auto simp: in_set_conv_nth)
  with l(2) show "\<exists>j < k. j < length lvls \<and> p \<in> set (lvls ! j)" by auto
next
  assume "\<exists>j < k. j < length lvls \<and> p \<in> set (lvls ! j)"
  then obtain j where j: "j < k" "j < length lvls" "p \<in> set (lvls ! j)" by blast
  then have "lvls ! j \<in> set (take k lvls)"
    by (metis in_set_conv_nth length_take min_less_iff_conj nth_take)
  with j(3) show "p \<in> set (concat (take k lvls))" by auto
qed

lemma level_of_ok:
  assumes lo: "levels_ok g lvls"
  shows "level_of lvls v = Some k \<longleftrightarrow> k < length lvls \<and> v \<in> set (lvls ! k)"
  using levels_okD[OF lo, of k] by (auto simp: level_of_Some_iff simp del: set_concat)

lemma level_of_covered:
  assumes lo: "levels_ok g lvls" and v: "v \<in> set (concat lvls)"
  shows "\<exists>k. level_of lvls v = Some k"
proof -
  from v have "v \<in> set (concat (take (length lvls) lvls))" by simp
  then obtain j where "j < length lvls" "v \<in> set (lvls ! j)"
    unfolding in_concat_take by blast
  then show ?thesis using level_of_ok[OF lo] by blast
qed

lemma preds_earlier:
  assumes lo: "levels_ok g lvls" and v: "level_of lvls v = Some k"
    and p: "p \<in> set (predecessors g v)"
  shows "\<exists>j < k. level_of lvls p = Some j"
proof -
  from v have k: "k < length lvls" "v \<in> set (lvls ! k)" using level_of_ok[OF lo] by auto
  with levels_okD[OF lo k(1)] p have "p \<in> set (concat (take k lvls))" by blast
  then obtain j where "j < k" "j < length lvls" "p \<in> set (lvls ! j)"
    unfolding in_concat_take by blast
  then show ?thesis using level_of_ok[OF lo] by blast
qed

lemma pred_in_prev:
  assumes lo: "levels_ok g lvls" and v: "level_of lvls v = Some (Suc k)"
  shows "\<exists>p \<in> set (predecessors g v). level_of lvls p = Some k"
proof -
  from v have k: "Suc k < length lvls" "v \<in> set (lvls ! Suc k)"
    using level_of_ok[OF lo] by auto
  from levels_okD[OF lo k(1)] k(2)
  have vN: "v \<in> set (node_ids g)" and vn: "v \<notin> set (concat (take (Suc k) lvls))"
    and ps: "set (predecessors g v) \<subseteq> set (concat (take (Suc k) lvls))"
    by blast+
  from k(1) have k': "k < length lvls" by simp
  from vn have "v \<notin> set (lvls ! k)" and v0: "v \<notin> set (concat (take k lvls))"
    unfolding in_concat_take using k' by (blast, metis less_Suc_eq)
  with levels_okD[OF lo k'] vN have "\<not> set (predecessors g v) \<subseteq> set (concat (take k lvls))"
    by blast
  then obtain p where p: "p \<in> set (predecessors g v)" "p \<notin> set (concat (take k lvls))"
    by blast
  with ps have "p \<in> set (concat (take (Suc k) lvls))" by blast
  then obtain j where j: "j < Suc k" "j < length lvls" "p \<in> set (lvls ! j)"
    unfolding in_concat_take by blast
  with p(2) have "j = k" unfolding in_concat_take by (metis less_Suc_eq)
  with j p(1) show ?thesis using level_of_ok[OF lo] by blast
qed

lemma finite_edge_rel: "finite (edge_rel g)"
proof (rule finite_subset)
  show "edge_rel g \<subseteq> set (node_ids g) \<times> (\<Union>u \<in> set (node_ids g). set (successors g u))"
    by (auto simp: edge_rel_def)
  show "finite (set (node_ids g) \<times> (\<Union>u \<in> set (node_ids g). set (successors g u)))"
    by simp
qed

lemma covered_if_acyclic:
  assumes wf: "wf_graph g" and lo: "levels_ok g lvls"
    and fr: "frontier g (set (concat lvls)) = {}" and ac: "acyclic (edge_rel g)"
  shows "set (concat lvls) = set (node_ids g)"
proof (rule ccontr)
  let ?D = "set (concat lvls)"
  assume ne: "?D \<noteq> set (node_ids g)"
  with levels_ok_facts(1)[OF lo] obtain x where x: "x \<in> set (node_ids g) - ?D" by blast
  from finite_acyclic_wf[OF finite_edge_rel ac] have "wf (edge_rel g)" .
  from wfE_min[OF this x] obtain z where
    z: "z \<in> set (node_ids g) - ?D" and m: "\<And>y. (y, z) \<in> edge_rel g \<Longrightarrow> y \<notin> set (node_ids g) - ?D"
    by blast
  from z fr have "\<not> set (predecessors g z) \<subseteq> ?D" unfolding frontier_def by blast
  then obtain p where p: "p \<in> set (predecessors g z)" "p \<notin> ?D" by blast
  from z have zN: "z \<in> set (node_ids g)" by simp
  from wf_graphD(5,6)[OF wf zN p(1)] have "p \<in> set (node_ids g)" "(p, z) \<in> edge_rel g"
    by (simp_all add: edge_rel_def)
  with m p(2) show False by blast
qed

lemma acyclic_if_covered:
  assumes wf: "wf_graph g" and lo: "levels_ok g lvls"
    and cov: "set (concat lvls) = set (node_ids g)"
  shows "acyclic (edge_rel g)"
proof -
  have "acyclic ((edge_rel g)\<inverse>)"
  proof (rule acyclicI_order[where f = "\<lambda>v. the (level_of lvls v)"])
    fix a b assume "(a, b) \<in> (edge_rel g)\<inverse>"
    then have b: "b \<in> set (node_ids g)" "a \<in> set (successors g b)" by (auto simp: edge_rel_def)
    from wf_graphD(3,4)[OF wf b(1) b(2)] have a: "a \<in> set (node_ids g)" "b \<in> set (predecessors g a)"
      by simp_all
    from a(1) cov level_of_covered[OF lo] obtain k where k: "level_of lvls a = Some k" by blast
    from preds_earlier[OF lo k a(2)] obtain j where "j < k" "level_of lvls b = Some j" by blast
    with k show "the (level_of lvls b) < the (level_of lvls a)" by simp
  qed
  then show ?thesis by (simp only: acyclic_converse)
qed

lemma unique_level:
  assumes lo: "levels_ok g lvls"
    and k: "k < length lvls" "v \<in> set (lvls ! k)" and j: "j < length lvls" "v \<in> set (lvls ! j)"
  shows "k = j"
  using level_of_ok[OF lo, of v k] level_of_ok[OF lo, of v j] k j by simp

subsection \<open>Graphs built through the interface\<close>

text \<open>
  The graphs that a program can hold: the empty graph of \<open>Graph()\<close>, and what
  \<open>add_node\<close> and a call of \<open>add_edge\<close> that does not raise make of such a graph. Each
  of them is well formed. A well-formed graph may list the members of a set of successors
  in any order, as Python may iterate over them in any order.
\<close>

inductive constructed :: "'w Graph \<Rightarrow> bool" where
  constructed_empty: "constructed empty_graph"
| constructed_node: "constructed g \<Longrightarrow> constructed (add_node n g)"
| constructed_edge: "constructed g \<Longrightarrow> add_edge s t g = Inr g' \<Longrightarrow> constructed g'"

lemma constructed_wf: "constructed g \<Longrightarrow> wf_graph g"
  by (induction rule: constructed.induct)
    (simp_all add: wf_graph_empty wf_graph_add_node wf_graph_add_edge)

lemma constructed_add_edges:
  "constructed g \<Longrightarrow> add_edges es g = Inr g' \<Longrightarrow> constructed g'"
proof (induction es arbitrary: g)
  case Nil
  then show ?case by simp
next
  case (Cons e es)
  obtain s t where e: "e = (s, t)" by (cases e)
  from Cons.prems(2) e obtain g1 where g1: "add_edge s t g = Inr g1" and r: "add_edges es g1 = Inr g'"
    by (auto split: sum.splits)
  from constructed_edge[OF Cons.prems(1) g1] have "constructed g1" .
  from Cons.IH[OF this r] show ?case .
qed

subsection \<open>Example graphs\<close>

text \<open>
  A diamond (\<open>a\<close> before \<open>b\<close> and \<open>c\<close>, both before \<open>d\<close>) and a cycle of two nodes,
  both built through the interface.
\<close>

definition diamond :: "string list Graph" where
  "diamond =
     \<lparr>nodes = [(''a'', ok_node ''a'' []), (''b'', ok_node ''b'' []), (''c'', ok_node ''c'' []),
               (''d'', ok_node ''d'' [])],
      edges = [(''a'', [''b'', ''c'']), (''b'', [''d'']), (''c'', [''d'']), (''d'', [])],
      reverse = [(''a'', []), (''b'', [''a'']), (''c'', [''a'']), (''d'', [''b'', ''c''])]\<rparr>"

definition cycle_ab :: "string list Graph" where
  "cycle_ab =
     \<lparr>nodes = [(''a'', ok_node ''a'' []), (''b'', ok_node ''b'' [])],
      edges = [(''a'', [''b'']), (''b'', [''a''])],
      reverse = [(''a'', [''b'']), (''b'', [''a''])]\<rparr>"

lemma build_diamond:
  "add_edges [(''a'', ''b''), (''a'', ''c''), (''b'', ''d''), (''c'', ''d'')]
     (add_node (ok_node ''d'' []) (add_node (ok_node ''c'' [])
       (add_node (ok_node ''b'' []) (add_node (ok_node ''a'' []) empty_graph)))) = Inr diamond"
  by (simp add: add_edge_def add_node_def empty_graph_def setdefault_def set_add_def diamond_def
      ok_node_def)

lemma build_cycle_ab:
  "add_edges [(''a'', ''b''), (''b'', ''a'')]
     (add_node (ok_node ''b'' []) (add_node (ok_node ''a'' []) empty_graph)) = Inr cycle_ab"
  by (simp add: add_edge_def add_node_def empty_graph_def setdefault_def set_add_def cycle_ab_def
      ok_node_def)

lemma wf_diamond: "wf_graph diamond"
  by (simp add: wf_graph_def diamond_def node_ids_def successors_def predecessors_def)

lemma wf_cycle_ab: "wf_graph cycle_ab"
  by (simp add: wf_graph_def cycle_ab_def node_ids_def successors_def predecessors_def)

lemma levels_diamond: "levels diamond = Inr [[''a''], [''b'', ''c''], [''d'']]"
  by (simp add: levels_def diamond_def node_ids_def successors_def predecessors_def)

lemma levels_cycle_ab: "levels cycle_ab = Inl (CycleError 0 2)"
  by (simp add: levels_def cycle_ab_def node_ids_def successors_def predecessors_def)

lemma acyclic_diamond: "acyclic (edge_rel diamond)"
proof (rule acyclicI_order[where f = "\<lambda>v. if v = ''a'' then 2 else if v = ''d'' then 0 else (1::nat)"])
  fix a b assume "(a, b) \<in> edge_rel diamond"
  then have "(a, b) \<in> {(''a'', ''b''), (''a'', ''c''), (''b'', ''d''), (''c'', ''d'')}"
    by (auto simp: edge_rel_def diamond_def node_ids_def successors_def split: if_splits)
  then show "(if b = ''a'' then 2 else if b = ''d'' then 0 else (1::nat))
           < (if a = ''a'' then 2 else if a = ''d'' then 0 else 1)"
    by auto
qed

lemma cyclic_cycle_ab: "\<not> acyclic (edge_rel cycle_ab)"
proof -
  have "(''a'', ''b'') \<in> edge_rel cycle_ab" "(''b'', ''a'') \<in> edge_rel cycle_ab"
    by (simp_all add: edge_rel_def cycle_ab_def node_ids_def successors_def)
  then have "(''a'', ''a'') \<in> (edge_rel cycle_ab)\<^sup>+" by (rule trancl_into_trancl[OF r_into_trancl])
  then show ?thesis unfolding acyclic_def by blast
qed

lemma constructed_diamond: "constructed diamond"
  by (rule constructed_add_edges[OF _ build_diamond]) (intro constructed.intros)

lemma constructed_cycle_ab: "constructed cycle_ab"
  by (rule constructed_add_edges[OF _ build_cycle_ab]) (intro constructed.intros)

subsection \<open>The levels of a graph\<close>

text \<open>
  C1: for every well-formed acyclic graph (so for every acyclic graph built through the
  interface, whatever the order of its sets), \<open>levels\<close> returns a list of levels in which
  every registered node appears exactly once (the concatenation of the levels has no
  repetition and holds exactly the registered nodes; each node is in exactly one level).
  With \<open>f v\<close> the index of the level of \<open>v\<close>: for every edge from \<open>u\<close> to \<open>v\<close>,
  \<open>f u < f v\<close>; a node without predecessors is in level 0, and the index of any other
  node is one more than the largest index among its predecessors.
\<close>

theorem levels_partition_kahn:
  assumes wf: "wf_graph g" and ac: "acyclic (edge_rel g)"
  shows "\<exists>lvls f.
    levels g = Inr lvls \<and>
    distinct (concat lvls) \<and> set (concat lvls) = set (node_ids g) \<and>
    (\<forall>v \<in> set (node_ids g). \<exists>!k. k < length lvls \<and> v \<in> set (lvls ! k)) \<and>
    (\<forall>v \<in> set (node_ids g). level_of lvls v = Some (f v)) \<and>
    (\<forall>u \<in> set (node_ids g). \<forall>v \<in> set (successors g u). f u < f v) \<and>
    (\<forall>v \<in> set (node_ids g).
       f v = (if predecessors g v = [] then 0 else 1 + Max (f ` set (predecessors g v))))"
proof -
  from levels_result[OF wf] obtain lvls where
    lo: "levels_ok g lvls" and fr: "frontier g (set (concat lvls)) = {}"
    and r: "levels g =
             (if set (concat lvls) = set (node_ids g) then Inr lvls
              else Inl (CycleError (int (length (concat lvls))) (int (length (nodes g)))))"
    by blast
  note cov = covered_if_acyclic[OF wf lo fr ac]
  define f where "f = (\<lambda>v. the (level_of lvls v))"
  have lv: "level_of lvls v = Some (f v)" if "v \<in> set (node_ids g)" for v
  proof -
    from that cov have "v \<in> set (concat lvls)" by blast
    from level_of_covered[OF lo this] show ?thesis unfolding f_def by force
  qed
  have 1: "levels g = Inr lvls" using r cov by simp
  have 2: "distinct (concat lvls)" by (rule levels_ok_facts(3)[OF lo])
  have 3: "\<exists>!k. k < length lvls \<and> v \<in> set (lvls ! k)" if v: "v \<in> set (node_ids g)" for v
  proof (rule ex1I[of _ "f v"])
    from lv[OF v] show "f v < length lvls \<and> v \<in> set (lvls ! f v)"
      using level_of_ok[OF lo] by blast
  next
    fix k assume "k < length lvls \<and> v \<in> set (lvls ! k)"
    then have "level_of lvls v = Some k" using level_of_ok[OF lo] by blast
    with lv[OF v] show "k = f v" by simp
  qed
  have 5: "f u < f v" if u: "u \<in> set (node_ids g)" and v: "v \<in> set (successors g u)" for u v
  proof -
    from wf_graphD(3,4)[OF wf u v] have vN: "v \<in> set (node_ids g)"
      and up: "u \<in> set (predecessors g v)" by simp_all
    from preds_earlier[OF lo lv[OF vN] up] obtain j where "j < f v" "level_of lvls u = Some j"
      by blast
    with lv[OF u] show ?thesis by simp
  qed
  have 6: "f v = (if predecessors g v = [] then 0 else 1 + Max (f ` set (predecessors g v)))"
    if v: "v \<in> set (node_ids g)" for v
  proof (cases "f v")
    case 0
    with lv[OF v] have "level_of lvls v = Some 0" by simp
    then have "0 < length lvls" "v \<in> set (lvls ! 0)" using level_of_ok[OF lo] by blast+
    with levels_okD[OF lo this(1)] have "set (predecessors g v) \<subseteq> {}" by simp
    with 0 show ?thesis by simp
  next
    case (Suc k)
    with lv[OF v] have s: "level_of lvls v = Some (Suc k)" by simp
    from pred_in_prev[OF lo s] obtain p where
      p: "p \<in> set (predecessors g v)" "level_of lvls p = Some k" by blast
    from wf_graphD(5)[OF wf v] have pN: "\<And>p. p \<in> set (predecessors g v) \<Longrightarrow> p \<in> set (node_ids g)" .
    have pk: "f p = k" using lv[OF pN[OF p(1)]] p(2) by simp
    have le: "f p' \<le> k" if "p' \<in> set (predecessors g v)" for p'
    proof -
      from preds_earlier[OF lo s that] obtain j where "j < Suc k" "level_of lvls p' = Some j"
        by blast
      with lv[OF pN[OF that]] show ?thesis by simp
    qed
    have "Max (f ` set (predecessors g v)) = k"
    proof (rule Max_eqI)
      show "finite (f ` set (predecessors g v))" by simp
      show "\<And>y. y \<in> f ` set (predecessors g v) \<Longrightarrow> y \<le> k" using le by blast
      show "k \<in> f ` set (predecessors g v)" using p(1) pk by blast
    qed
    moreover from p(1) have "predecessors g v \<noteq> []" by auto
    ultimately show ?thesis using Suc by simp
  qed
  show ?thesis
  proof (intro exI[of _ lvls] exI[of _ f] conjI ballI)
    show "levels g = Inr lvls" by (rule 1)
    show "distinct (concat lvls)" by (rule 2)
    show "set (concat lvls) = set (node_ids g)" by (rule cov)
    show "\<exists>!k. k < length lvls \<and> v \<in> set (lvls ! k)" if "v \<in> set (node_ids g)" for v
      using that by (rule 3)
    show "level_of lvls v = Some (f v)" if "v \<in> set (node_ids g)" for v
      using that by (rule lv)
    show "f u < f v" if "u \<in> set (node_ids g)" "v \<in> set (successors g u)" for u v
      using that by (rule 5)
    show "f v = (if predecessors g v = [] then 0 else 1 + Max (f ` set (predecessors g v)))"
      if "v \<in> set (node_ids g)" for v
      using that by (rule 6)
  qed
qed

theorem levels_partition_kahn_witness:
  "\<exists>f. levels diamond = Inr [[''a''], [''b'', ''c''], [''d'']] \<and>
       f ''a'' = (0::nat) \<and> f ''b'' = 1 \<and> f ''c'' = 1 \<and> f ''d'' = 2 \<and>
       f ''d'' = 1 + Max {f ''b'', f ''c''}"
proof -
  from levels_partition_kahn[OF constructed_wf[OF constructed_diamond] acyclic_diamond]
  obtain lvls f where l: "levels diamond = Inr lvls"
    and lv: "\<forall>v \<in> set (node_ids diamond). level_of lvls v = Some (f v)"
    and mx: "\<forall>v \<in> set (node_ids diamond).
       f v = (if predecessors diamond v = [] then 0 else 1 + Max (f ` set (predecessors diamond v)))"
    by (elim exE conjE) (rule that)
  from l have lvls: "lvls = [[''a''], [''b'', ''c''], [''d'']]" by (simp add: levels_diamond)
  have n: "node_ids diamond = [''a'', ''b'', ''c'', ''d'']" by (simp add: diamond_def node_ids_def)
  have p: "predecessors diamond ''d'' = [''b'', ''c'']" by (simp add: diamond_def predecessors_def)
  from lv have f: "f ''a'' = 0" "f ''b'' = 1" "f ''c'' = 1" "f ''d'' = 2"
    unfolding n lvls by simp_all
  from mx[unfolded n, THEN bspec, of "''d''"] have m: "f ''d'' = 1 + Max {f ''b'', f ''c''}"
    unfolding p by simp
  show ?thesis
    by (intro exI[of _ f] conjI) (use f m levels_diamond in simp_all)
qed

text \<open>
  C2: on every well-formed graph (so on every graph built through the interface),
  \<open>levels\<close> returns normally when the graph is acyclic
  and raises \<open>CycleError\<close> when it has a cycle; no other error is raised. In the second
  case the number of visited nodes is smaller than the number of registered nodes, so the
  test \<open>visited != len(self._nodes)\<close> fails exactly on the graphs with a cycle.
\<close>

theorem levels_cycle_error_iff:
  assumes wf: "wf_graph g"
  shows "(acyclic (edge_rel g) \<longrightarrow> (\<exists>lvls. levels g = Inr lvls)) \<and>
         (\<not> acyclic (edge_rel g) \<longrightarrow>
            (\<exists>visited. levels g = Inl (CycleError visited (int (length (nodes g)))) \<and>
               0 \<le> visited \<and> visited < int (length (nodes g))))"
proof -
  from levels_result[OF wf] obtain lvls where
    lo: "levels_ok g lvls" and fr: "frontier g (set (concat lvls)) = {}"
    and r: "levels g =
             (if set (concat lvls) = set (node_ids g) then Inr lvls
              else Inl (CycleError (int (length (concat lvls))) (int (length (nodes g)))))"
    and le: "length (concat lvls) \<le> length (nodes g)"
    by blast
  show ?thesis
  proof (cases "acyclic (edge_rel g)")
    case True
    with covered_if_acyclic[OF wf lo fr] r show ?thesis by simp
  next
    case False
    with acyclic_if_covered[OF wf lo] have nc: "set (concat lvls) \<noteq> set (node_ids g)" by blast
    have "length (concat lvls) \<noteq> length (nodes g)"
    proof
      assume e: "length (concat lvls) = length (nodes g)"
      from wf have "distinct (node_ids g)" by (simp add: wf_graph_def)
      then have "card (set (node_ids g)) = length (node_ids g)" by (rule distinct_card)
      then have "card (set (node_ids g)) = length (nodes g)" by (simp add: node_ids_def)
      moreover have "card (set (concat lvls)) = length (concat lvls)"
        by (rule distinct_card[OF levels_ok_facts(3)[OF lo]])
      ultimately have "card (set (concat lvls)) = card (set (node_ids g))" using e by simp
      with card_subset_eq[OF finite_set levels_ok_facts(1)[OF lo]] nc show False by blast
    qed
    with le have "int (length (concat lvls)) < int (length (nodes g))" by simp
    with False r nc show ?thesis by simp
  qed
qed

theorem levels_cycle_error_iff_witness:
  "(\<exists>lvls. levels diamond = Inr lvls) \<and>
   (\<exists>visited. levels cycle_ab = Inl (CycleError visited 2) \<and> 0 \<le> visited \<and> visited < 2)"
proof -
  note a = levels_cycle_error_iff[OF constructed_wf[OF constructed_diamond], THEN conjunct1, rule_format,
      OF acyclic_diamond]
  note b = levels_cycle_error_iff[OF constructed_wf[OF constructed_cycle_ab], THEN conjunct2, rule_format,
      OF cyclic_cycle_ab]
  have "length (nodes cycle_ab) = 2" by (simp add: cycle_ab_def)
  with b have "\<exists>visited. levels cycle_ab = Inl (CycleError visited 2) \<and> 0 \<le> visited \<and> visited < 2"
    by simp
  with a show ?thesis by (rule conjI)
qed

section \<open>Runs over the levels\<close>

subsection \<open>Scheduling and running one level\<close>





subsection \<open>The records of a run without fail-fast and dry-run\<close>







subsection \<open>Skipped predecessors\<close>












section \<open>When outputs are merged\<close>






subsection \<open>The calls of a run\<close>





text \<open>
  What a call of \<open>_run_node\<close> leaves behind: the context and the world after the node's
  \<open>execute\<close> and, for a \<open>SUCCESS\<close> result, the merge of its outputs. A call \<open>keeps\<close> a
  key when the key has the same entry after the call as before it.
\<close>

definition after_call :: "'w Graph \<Rightarrow> string \<times> Context \<times> 'w \<Rightarrow> Context \<times> 'w" where
  "after_call g = (\<lambda>(nid, c, w).
     case get_node g nid of
       Inl e \<Rightarrow> (c, w)
     | Inr node \<Rightarrow>
         (case execute node c w of
            (res, c1, w1) \<Rightarrow> (if status res = SUCCESS then merge nid (outputs res) c1 else c1, w1)))"



fun final :: "'w Graph \<Rightarrow> Context \<times> 'w \<Rightarrow> (string \<times> Context \<times> 'w) list \<Rightarrow> Context \<times> 'w" where
  "final g s [] = s"
| "final g s (x # xs) = final g (after_call g x) xs"




lemma final_append: "final g s (xs @ ys) = final g (final g s xs) ys"
  by (induction xs arbitrary: s) auto














end
